theory Spec2Isabelle
  imports Main "HOL-Library.Word"
begin

unbundle bit_operations_syntax

section \<open>Data model of sysjitter.c\<close>

text \<open>
  \<^verbatim>\<open>stamp_t\<close> and \<^verbatim>\<open>cycles_t\<close> are \<^verbatim>\<open>uint64_t\<close>; \<^verbatim>\<open>unsigned\<close> and \<^verbatim>\<open>int\<close> are 32 bits wide,
  \<^verbatim>\<open>size_t\<close> and pointer differences 64 bits (LP64: the x86-64, PPC64 and AArch64 builds
  of the program). Arithmetic on words wraps around, as unsigned arithmetic does in C; a
  conversion to a narrower signed type keeps the low bits.
\<close>

type_synonym stamp_t = "64 word"
type_synonym cycles_t = "64 word"

datatype command = WAIT | GO | STOP

record interruption =
  ts :: stamp_t
  diff :: cycles_t

text \<open>
  \<^verbatim>\<open>struct thread\<close>. The array \<^verbatim>\<open>interruptions\<close> is the list of its slots, the cursor
  \<^verbatim>\<open>c_interruption\<close> is kept as the index \<^verbatim>\<open>c_interruption - interruptions\<close>, and
  \<^verbatim>\<open>sorted\<close> (here \<open>sorted_p\<close>) holds pointers into \<^verbatim>\<open>interruptions\<close>, kept as slot
  indices. The pthread handle \<^verbatim>\<open>thread_id\<close> carries no data and is left out.
\<close>

record thread =
  core_i :: int
  cpu_mhz :: "32 word"
  interruptions :: "interruption list"
  c_interruption :: nat
  int_total :: cycles_t
  frc_start :: stamp_t
  frc_stop :: stamp_t
  sorted_p :: "nat list"
  runtime :: cycles_t
  int_n :: "32 word"
  int_min :: cycles_t
  int_max :: cycles_t
  int_mean :: cycles_t
  int_median :: cycles_t
  int_90 :: cycles_t
  int_99 :: cycles_t
  int_999 :: cycles_t
  int_9999 :: cycles_t
  int_99999 :: cycles_t

text \<open>
  \<^verbatim>\<open>struct global\<close>, configuration part. The volatile fields (\<^verbatim>\<open>cmd\<close> and the four
  counters) are written by other threads while a thread runs; what a thread reads from
  them is an input of the functions below, and what it adds to them is an event of its
  run.
\<close>

record global =
  max_interruptions :: "32 word"
  runtime_secs :: "32 word"
  threshold_nsec :: "32 word"
  n_threads :: "32 word"

text \<open>
  Ways in which a function of the program does not return normally. \<open>Unfinished\<close>: the
  observations supplied for a loop ran out with the loop still running.
  \<open>OutOfBounds k\<close>: slot \<open>k\<close> of an array was accessed although the array has no such
  slot. \<open>SignedOverflow\<close> and \<open>DivideByZero\<close>: undefined arithmetic on \<^verbatim>\<open>int\<close> and
  \<^verbatim>\<open>unsigned\<close>. \<open>BadCount\<close>: a record count that does not fit \<^verbatim>\<open>int\<close> is passed on as
  an element count. \<open>Exit c\<close>: the process ends with status \<open>c\<close>.
\<close>

datatype error =
    Unfinished
  | OutOfBounds nat
  | SignedOverflow
  | DivideByZero
  | BadCount
  | Exit nat

section \<open>The sampling loop\<close>

text \<open>
  \<^verbatim>\<open>doit\<close>, lines 264-286. The loop reads \<^verbatim>\<open>g.cmd\<close> at its head and the cycle counter
  in its body; the list of observations gives, for each evaluation of the loop test, the
  command read there and the counter value that \<^verbatim>\<open>frc\<close> returns if the body runs.
  The state of the loop is the array, the cursor \<open>i\<close>, \<^verbatim>\<open>prev_ts\<close> and \<^verbatim>\<open>int_total\<close>;
  \<open>i_end\<close> is \<^verbatim>\<open>g.max_interruptions\<close>. Both stores of the body go to slot \<open>i\<close>, whether or
  not the cursor moves afterwards.
\<close>

fun doit_loop ::
  "nat \<Rightarrow> cycles_t \<Rightarrow> (command \<times> stamp_t) list \<Rightarrow> interruption list \<Rightarrow> nat \<Rightarrow> stamp_t \<Rightarrow>
   cycles_t \<Rightarrow> error + (interruption list \<times> nat \<times> cycles_t)" where
  "doit_loop i_end threshold_cycles [] mem i prev_ts tot = Inl Unfinished"
| "doit_loop i_end threshold_cycles ((c, now) # rest) mem i prev_ts tot =
     (if c \<noteq> GO then Inr (mem, i, tot)
      else if length mem \<le> i then Inl (OutOfBounds i)
      else
        let d = now - prev_ts;
            mem' = mem[i := \<lparr>ts = now, diff = d\<rparr>]
        in if threshold_cycles \<le> d
           then (if Suc i = i_end then Inr (mem', Suc i, tot + d)
                 else doit_loop i_end threshold_cycles rest mem' (Suc i) now (tot + d))
           else doit_loop i_end threshold_cycles rest mem' i now tot)"

definition doit ::
  "global \<Rightarrow> stamp_t \<Rightarrow> (command \<times> stamp_t) list \<Rightarrow> thread \<Rightarrow> cycles_t \<Rightarrow> error + thread" where
  "doit g first obs t threshold_cycles =
     (case doit_loop (unat (max_interruptions g)) threshold_cycles obs (interruptions t) 0 first 0 of
        Inl e \<Rightarrow> Inl e
      | Inr (mem, i, tot) \<Rightarrow>
          Inr (t\<lparr>interruptions := mem, c_interruption := i, int_total := tot\<rparr>))"

text \<open>The records a thread holds: the slots below its cursor, in buffer order.\<close>

definition recorded :: "thread \<Rightarrow> interruption list" where
  "recorded t = take (c_interruption t) (interruptions t)"

text \<open>
  The candidate records of a run, in the words of the specification: one per counter
  read, holding the value read and its distance from the read before it.
\<close>

fun gaps :: "stamp_t \<Rightarrow> stamp_t list \<Rightarrow> interruption list" where
  "gaps prev [] = []"
| "gaps prev (s # ss) = \<lparr>ts = s, diff = s - prev\<rparr> # gaps s ss"

section \<open>Thread start-up\<close>

text \<open>
  \<^verbatim>\<open>thread_init\<close>, lines 236-243. \<^verbatim>\<open>bytes\<close> is an \<^verbatim>\<open>int\<close>: the product, computed in
  \<^verbatim>\<open>size_t\<close>, is cut to 32 bits. A negative value becomes a request for nearly \<open>2 ^ 64\<close>
  bytes, which \<^verbatim>\<open>malloc\<close> refuses, and \<^verbatim>\<open>TEST\<close> exits with status 1; so it does whenever
  \<^verbatim>\<open>malloc\<close> returns \<^verbatim>\<open>NULL\<close> (\<open>malloc_ok\<close> false). The array has as many slots as fit in
  \<^verbatim>\<open>bytes\<close>. The second array is not initialised: \<open>junk\<close> gives what it holds.
\<close>

definition thread_init :: "global \<Rightarrow> bool \<Rightarrow> (nat \<Rightarrow> nat) \<Rightarrow> thread \<Rightarrow> error + thread" where
  "thread_init g malloc_ok junk t =
     (let bytes = sint (word_of_nat (unat (max_interruptions g) * 16) :: 32 word)
      in if bytes < 0 \<or> \<not> malloc_ok then Inl (Exit 1)
         else Inr (t\<lparr>interruptions := replicate (nat bytes div 16) \<lparr>ts = 0, diff = 0\<rparr>,
                     c_interruption := 0,
                     sorted_p := map junk [0..<unat (max_interruptions g)]\<rparr>))"

text \<open>
  \<^verbatim>\<open>measure_cpu_mhz\<close>, lines 220-233. The values of \<^verbatim>\<open>__measure_cpu_hz\<close> come from the
  cycle counter and the wall clock; they are the input here, one per call.
\<close>

fun measure_loop :: "cycles_t \<Rightarrow> cycles_t list \<Rightarrow> error + 32 word" where
  "measure_loop mprev [] = Inl Unfinished"
| "measure_loop mprev (m # rest) =
     (let d = (if mprev < m then m - mprev else mprev - m)
      in if m div 1000 < d then measure_loop m rest
         else Inr (ucast (m div 1000000)))"

fun measure_cpu_mhz :: "cycles_t list \<Rightarrow> error + 32 word" where
  "measure_cpu_mhz [] = Inl Unfinished"
| "measure_cpu_mhz (mprev # rest) = measure_loop mprev rest"

text \<open>
  What one thread does that others can see, in program order, and what it reads from
  outside. Every field of \<open>thread_env\<close> is the sequence of values one statement of
  \<^verbatim>\<open>thread_main\<close> receives: the return code of \<^verbatim>\<open>sched_setaffinity\<close>, the outcome of
  \<^verbatim>\<open>malloc\<close>, the reads of \<^verbatim>\<open>g.cmd\<close> in the first loop, the frequency measurements, the
  reads of \<^verbatim>\<open>g.n_threads_running\<close> and \<^verbatim>\<open>g.n_threads_finished\<close> in the two barriers, and
  the counter reads.
\<close>

datatype event =
    E_move_to_core int
  | E_thread_init
  | E_inc_started
  | E_usleep
  | E_measure_cpu_mhz
  | E_inc_running
  | E_relax
  | E_frc_start
  | E_doit
  | E_frc_stop
  | E_inc_finished

record thread_env =
  affinity_rc :: int
  malloc_ok :: bool
  junk :: "nat \<Rightarrow> nat"
  wait_polls :: "command list"
  hz_samples :: "cycles_t list"
  running_polls :: "32 word list"
  start_stamp :: stamp_t
  first_stamp :: stamp_t
  samples :: "(command \<times> stamp_t) list"
  stop_stamp :: stamp_t
  finished_polls :: "32 word list"

text \<open>A run so far: the events, and how it went on (an error, or a value to continue with).\<close>

type_synonym 'a run = "event list \<times> (error + 'a)"

definition then_do :: "'a run \<Rightarrow> ('a \<Rightarrow> 'b run) \<Rightarrow> 'b run" where
  "then_do r f =
     (case r of
        (evs, Inl e) \<Rightarrow> (evs, Inl e)
      | (evs, Inr x) \<Rightarrow> (case f x of (evs', y) \<Rightarrow> (evs @ evs', y)))"

text \<open>\<^verbatim>\<open>while( g.cmd == WAIT ) usleep(1000);\<close>\<close>

fun wait_loop :: "command list \<Rightarrow> unit run" where
  "wait_loop [] = ([], Inl Unfinished)"
| "wait_loop (c # cs) =
     (if c = WAIT then (case wait_loop cs of (evs, r) \<Rightarrow> (E_usleep # evs, r))
      else ([], Inr ()))"

text \<open>\<^verbatim>\<open>while( counter != g.n_threads ) relax();\<close>\<close>

fun barrier_loop :: "32 word \<Rightarrow> 32 word list \<Rightarrow> unit run" where
  "barrier_loop n [] = ([], Inl Unfinished)"
| "barrier_loop n (c # cs) =
     (if c \<noteq> n then (case barrier_loop n cs of (evs, r) \<Rightarrow> (E_relax # evs, r))
      else ([], Inr ()))"

text \<open>
  \<^verbatim>\<open>thread_main\<close>, lines 289-328, statement by statement. The threshold handed to
  \<^verbatim>\<open>doit\<close> is \<^verbatim>\<open>(cycles_t) g.threshold_nsec * t->cpu_mhz / 1000\<close>, computed in 64 bits.
\<close>

definition thread_main :: "global \<Rightarrow> thread_env \<Rightarrow> thread \<Rightarrow> thread run" where
  "thread_main g env t =
     then_do ([E_move_to_core (core_i t)],
              if affinity_rc env = 0 then Inr () else Inl (Exit 1)) (\<lambda>_.
     then_do ([E_thread_init], thread_init g (malloc_ok env) (junk env) t) (\<lambda>t1.
     then_do ([E_inc_started], Inr ()) (\<lambda>_.
     then_do (wait_loop (wait_polls env)) (\<lambda>_.
     then_do ([E_measure_cpu_mhz], measure_cpu_mhz (hz_samples env)) (\<lambda>mhz.
     then_do ([E_inc_running], Inr (t1\<lparr>cpu_mhz := mhz\<rparr>)) (\<lambda>t2.
     then_do (barrier_loop (n_threads g) (running_polls env)) (\<lambda>_.
     then_do ([E_frc_start], Inr (t2\<lparr>frc_start := start_stamp env\<rparr>)) (\<lambda>t3.
     then_do ([E_doit],
              doit g (first_stamp env) (samples env) t3
                (ucast (threshold_nsec g) * ucast (cpu_mhz t3) div 1000)) (\<lambda>t4.
     then_do ([E_frc_stop], Inr (t4\<lparr>frc_stop := stop_stamp env\<rparr>)) (\<lambda>t5.
     then_do ([E_inc_finished], Inr ()) (\<lambda>_.
     then_do (barrier_loop (n_threads g) (finished_polls env)) (\<lambda>_.
       ([], Inr t5)))))))))))))"

text \<open>
  \<open>precedes a b evs\<close>: no \<open>b\<close> happens in \<open>evs\<close> before the first \<open>a\<close> has happened.
\<close>

definition precedes :: "event \<Rightarrow> event \<Rightarrow> event list \<Rightarrow> bool" where
  "precedes a b evs = (b \<notin> set (takeWhile (\<lambda>e. e \<noteq> a) evs))"

section \<open>Sorting and statistics\<close>

text \<open>
  \<^verbatim>\<open>qsort_cmp_interruption\<close>, lines 331-336. The two arguments point to pointers to
  records; the records are read from the array \<open>mem\<close>. The difference of the two gaps is
  taken in 64 bits and then cast to \<^verbatim>\<open>int\<close>, which keeps its low 32 bits.
\<close>

definition qsort_cmp_interruption :: "interruption list \<Rightarrow> nat \<Rightarrow> nat \<Rightarrow> int" where
  "qsort_cmp_interruption mem a b = sint (ucast (diff (mem ! a) - diff (mem ! b)) :: 32 word)"

text \<open>
  The C library's \<^verbatim>\<open>qsort\<close> is not part of the program. It is taken here as insertion
  from the right, which orders any array on which the comparison function is a
  consistent order, and keeps the relative order of elements that compare equal.
\<close>

fun insert_cmp :: "('a \<Rightarrow> 'a \<Rightarrow> int) \<Rightarrow> 'a \<Rightarrow> 'a list \<Rightarrow> 'a list" where
  "insert_cmp cmp x [] = [x]"
| "insert_cmp cmp x (y # ys) =
     (if cmp x y \<le> 0 then x # y # ys else y # insert_cmp cmp x ys)"

definition qsort :: "('a \<Rightarrow> 'a \<Rightarrow> int) \<Rightarrow> 'a list \<Rightarrow> 'a list" where
  "qsort cmp xs = foldr (insert_cmp cmp) xs []"

text \<open>
  \<^verbatim>\<open>unsort_interruptions\<close>, lines 339-344, and \<^verbatim>\<open>sort_interruptions\<close>, lines 347-352.
  \<^verbatim>\<open>n\<close> is an \<^verbatim>\<open>int\<close>: the pointer difference cut to 32 bits. A negative \<^verbatim>\<open>n\<close> reaches
  \<^verbatim>\<open>qsort\<close> as a count near \<open>2 ^ 64\<close>. With two elements or more the comparison function
  reads every record pointed to.
\<close>

definition unsort_interruptions :: "thread \<Rightarrow> error + thread" where
  "unsort_interruptions t =
     (let n = sint (word_of_nat (c_interruption t) :: 32 word)
      in if int (length (sorted_p t)) < n then Inl (OutOfBounds (length (sorted_p t)))
         else Inr (t\<lparr>sorted_p := [0..<nat n] @ drop (nat n) (sorted_p t)\<rparr>))"

definition sort_interruptions :: "thread \<Rightarrow> error + thread" where
  "sort_interruptions t =
     (let n = sint (word_of_nat (c_interruption t) :: 32 word)
      in case unsort_interruptions t of
           Inl e \<Rightarrow> Inl e
         | Inr t1 \<Rightarrow>
             if n < 0 then Inl BadCount
             else if 2 \<le> n \<and> int (length (interruptions t1)) < n
               then Inl (OutOfBounds (length (interruptions t1)))
             else Inr (t1\<lparr>sorted_p :=
                         qsort (qsort_cmp_interruption (interruptions t1))
                           (take (nat n) (sorted_p t1))
                         @ drop (nat n) (sorted_p t1)\<rparr>))"

text \<open>
  Multiplication of a count by a \<^verbatim>\<open>double\<close> constant and the cast of the product to
  \<^verbatim>\<open>int\<close>, as in \<^verbatim>\<open>(int) (t->int_n * 0.9)\<close>, in IEEE 754 binary64 with rounding to
  nearest, ties to even, the product being rounded to \<^verbatim>\<open>double\<close> before the cast (as on
  x86-64, PPC64 and AArch64; arithmetic that keeps the product in a wider format is not
  modelled). The constant is \<open>c / 2 ^ e\<close>
  with \<open>c < 2 ^ 53\<close>, the count converts exactly, the exact product \<open>n * c / 2 ^ e\<close> is
  rounded to 53 significant bits (\<open>round53\<close> does this to the numerator), and the cast
  drops the fraction. The literals of the program are
  \<open>0.9 = 8106479329266893 / 2 ^ 53\<close>, \<open>0.99 = 4458563631096791 / 2 ^ 52\<close>,
  \<open>0.999 = 8998192055486251 / 2 ^ 53\<close>, \<open>0.9999 = 4503149267407759 / 2 ^ 52\<close> and
  \<open>0.99999 = 9007109182748445 / 2 ^ 53\<close>.
\<close>

fun bitlen :: "nat \<Rightarrow> nat" where
  "bitlen n = (if n = 0 then 0 else Suc (bitlen (n div 2)))"

declare bitlen.simps [simp del]

definition round53 :: "nat \<Rightarrow> nat" where
  "round53 N =
     (let s = bitlen N - 53; q = N div 2 ^ s; r = N mod 2 ^ s
      in if 2 ^ s < 2 * r \<or> (2 ^ s = 2 * r \<and> odd q) then (q + 1) * 2 ^ s else q * 2 ^ s)"

definition pct_index :: "nat \<Rightarrow> nat \<Rightarrow> nat \<Rightarrow> nat" where
  "pct_index n c e = round53 (n * c) div 2 ^ e"

text \<open>\<^verbatim>\<open>t->sorted[k]->diff\<close>: two reads, each of which may miss its array.\<close>

definition sorted_diff :: "thread \<Rightarrow> nat \<Rightarrow> error + cycles_t" where
  "sorted_diff t k =
     (if length (sorted_p t) \<le> k then Inl (OutOfBounds k)
      else if length (interruptions t) \<le> sorted_p t ! k then Inl (OutOfBounds (sorted_p t ! k))
      else Inr (diff (interruptions t ! (sorted_p t ! k))))"

text \<open>The loop of lines 372-374, over the slots below the cursor.\<close>

definition sum_diffs :: "thread \<Rightarrow> error + cycles_t" where
  "sum_diffs t =
     (if length (interruptions t) < c_interruption t then Inl (OutOfBounds (length (interruptions t)))
      else Inr (foldl (\<lambda>sum r. sum + diff r) 0 (take (c_interruption t) (interruptions t))))"

definition ebind :: "error + 'a \<Rightarrow> ('a \<Rightarrow> error + 'b) \<Rightarrow> error + 'b" where
  "ebind m f = (case m of Inl e \<Rightarrow> Inl e | Inr x \<Rightarrow> f x)"

text \<open>
  \<^verbatim>\<open>thread_calc_stats\<close>, lines 355-388. \<^verbatim>\<open>int_n\<close> is \<^verbatim>\<open>unsigned\<close>: the pointer difference
  cut to 32 bits. Where \<^verbatim>\<open>sort_interruptions\<close> has returned, the count is below \<open>2 ^ 31\<close>
  and every product fits \<^verbatim>\<open>int\<close>. The mean is a 64-bit unsigned division.
\<close>

definition thread_calc_stats :: "thread \<Rightarrow> error + thread" where
  "thread_calc_stats t =
     (let t0 = t\<lparr>runtime := frc_stop t - frc_start t, int_n := word_of_nat (c_interruption t)\<rparr>;
          n = unat (int_n t0)
      in if int_n t0 \<noteq> 0 then
           ebind (sort_interruptions t0) (\<lambda>t1.
           ebind (sorted_diff t1 0) (\<lambda>v_min.
           ebind (sorted_diff t1 (n - 1)) (\<lambda>v_max.
           ebind (sorted_diff t1 (n div 2)) (\<lambda>v_median.
           ebind (sorted_diff t1 (pct_index n 8106479329266893 53)) (\<lambda>v_90.
           ebind (sorted_diff t1 (pct_index n 4458563631096791 52)) (\<lambda>v_99.
           ebind (sorted_diff t1 (pct_index n 8998192055486251 53)) (\<lambda>v_999.
           ebind (sorted_diff t1 (pct_index n 4503149267407759 52)) (\<lambda>v_9999.
           ebind (sorted_diff t1 (pct_index n 9007109182748445 53)) (\<lambda>v_99999.
           ebind (sum_diffs t1) (\<lambda>sum.
             Inr (t1\<lparr>int_min := v_min, int_max := v_max, int_median := v_median,
                     int_90 := v_90, int_99 := v_99, int_999 := v_999,
                     int_9999 := v_9999, int_99999 := v_99999,
                     int_mean := sum div ucast (int_n t1)\<rparr>)))))))))))
         else Inr (t0\<lparr>int_min := 0, int_max := 0, int_median := 0, int_90 := 0, int_99 := 0,
                      int_999 := 0, int_9999 := 0, int_99999 := 0, int_mean := 0\<rparr>))"

text \<open>
  The statistic the specification asks for: the records ordered by gap, smallest first,
  read at index \<open>floor (n * p)\<close> for \<open>p = num / den\<close>.
\<close>

definition nearest_rank :: "nat \<Rightarrow> nat \<Rightarrow> interruption list \<Rightarrow> cycles_t" where
  "nearest_rank num den recs = sort (map diff recs) ! (length recs * num div den)"

section \<open>Checks after a run, and the size of the next buffer\<close>

text \<open>
  \<^verbatim>\<open>post_test_checks\<close>, lines 391-412. The comparison is between a pointer difference and
  an \<^verbatim>\<open>unsigned\<close>, both taken to 64 bits. What goes to \<^verbatim>\<open>stderr\<close> is kept as one message
  per line, without the running time printed in the first kind of line.
\<close>

datatype message =
    Finished_early nat "32 word"
  | Increase_threshold

definition post_test_checks :: "global \<Rightarrow> thread list \<Rightarrow> message list \<times> (error + unit)" where
  "post_test_checks g threads =
     (if length threads < unat (n_threads g) then ([], Inl (OutOfBounds (length threads)))
      else
        let early = filter (\<lambda>i. c_interruption (threads ! i) = unat (max_interruptions g))
                      [0..<unat (n_threads g)]
        in if early \<noteq> []
           then (map (\<lambda>i. Finished_early i (max_interruptions g)) early @ [Increase_threshold],
                 Inl (Exit 2))
           else ([], Inr ()))"

text \<open>
  \<^verbatim>\<open>calc_max_interruptions\<close>, lines 587-609. \<^verbatim>\<open>max\<close> and \<^verbatim>\<open>per_sec\<close> are \<^verbatim>\<open>int\<close>; they and
  the argument \<^verbatim>\<open>runtime\<close> (here \<open>secs\<close>) are kept as 32-bit patterns, compared and
  divided as \<^verbatim>\<open>unsigned\<close> where the other operand is \<^verbatim>\<open>unsigned\<close>, and read as signed
  elsewhere. The products are signed, and undefined when they leave the range of \<^verbatim>\<open>int\<close>.
\<close>

fun scan_threads :: "thread list \<Rightarrow> 32 word \<Rightarrow> thread list \<times> 32 word" where
  "scan_threads [] mx = ([], mx)"
| "scan_threads (t # ths) mx =
     (let n = word_of_nat (c_interruption t) :: 32 word;
          mx' = (if mx < n then n else mx)
      in case scan_threads ths mx' of (ths', r) \<Rightarrow> (t\<lparr>int_n := n\<rparr> # ths', r))"

definition in_int_range :: "int \<Rightarrow> bool" where
  "in_int_range x = (- (2 ^ 31) \<le> x \<and> x < 2 ^ 31)"

definition calc_max_interruptions ::
  "global \<Rightarrow> thread list \<Rightarrow> 32 word \<Rightarrow> error + (global \<times> thread list)" where
  "calc_max_interruptions g threads secs =
     (if length threads < unat (n_threads g) then Inl (OutOfBounds (length threads))
      else case scan_threads (take (unat (n_threads g)) threads) 0 of
        (ths, mx) \<Rightarrow>
          if runtime_secs g = 0 then Inl DivideByZero
          else
            let q = mx div runtime_secs g;
                per_sec = (if sint q < 1000 then 1000 else q)
            in if \<not> in_int_range (sint per_sec * 2) then Inl SignedOverflow
               else if \<not> in_int_range (sint per_sec * 2 * sint secs) then Inl SignedOverflow
               else Inr (g\<lparr>max_interruptions := word_of_int (sint per_sec * 2 * sint secs)\<rparr>,
                         ths @ drop (unat (n_threads g)) threads))"

text \<open>
  The rate the specification speaks of: the largest, over the threads, of the count
  divided by the seconds of the calibration run, and 0 where there is no thread.
\<close>

definition observed_rate :: "global \<Rightarrow> thread list \<Rightarrow> nat" where
  "observed_rate g threads =
     fold max (map (\<lambda>t. c_interruption t div unat (runtime_secs g))
                 (take (unat (n_threads g)) threads)) 0"


section \<open>Concrete states and runs\<close>

text \<open>
  A thread structure with every field zero; the configuration of a run with room for
  four records; the thread after \<^verbatim>\<open>thread_init\<close> under it; and a short run of the
  sampling loop: counter reads 20, 1000, 1010 and 5000 with a threshold of 900 cycles,
  then \<^verbatim>\<open>STOP\<close>.
\<close>

definition zero_thread :: thread where
  "zero_thread = \<lparr>core_i = 0, cpu_mhz = 0, interruptions = [], c_interruption = 0, int_total = 0,
     frc_start = 0, frc_stop = 0, sorted_p = [], runtime = 0, int_n = 0, int_min = 0,
     int_max = 0, int_mean = 0, int_median = 0, int_90 = 0, int_99 = 0, int_999 = 0,
     int_9999 = 0, int_99999 = 0\<rparr>"

definition g_four :: global where
  "g_four = \<lparr>max_interruptions = 4, runtime_secs = 1, threshold_nsec = 500, n_threads = 1\<rparr>"

definition armed_thread :: thread where
  "armed_thread = zero_thread\<lparr>interruptions :=
       [\<lparr>ts = 0, diff = 0\<rparr>, \<lparr>ts = 0, diff = 0\<rparr>, \<lparr>ts = 0, diff = 0\<rparr>, \<lparr>ts = 0, diff = 0\<rparr>],
     sorted_p := [0, 0, 0, 0]\<rparr>"

definition obs_quiet :: "(command \<times> stamp_t) list" where
  "obs_quiet = [(GO, 1000), (GO, 1010), (GO, 5000), (STOP, 5000)]"

definition sampled_thread :: thread where
  "sampled_thread = armed_thread\<lparr>interruptions :=
       [\<lparr>ts = 1000, diff = 980\<rparr>, \<lparr>ts = 5000, diff = 3990\<rparr>, \<lparr>ts = 0, diff = 0\<rparr>,
        \<lparr>ts = 0, diff = 0\<rparr>],
     c_interruption := 2, int_total := 4970\<rparr>"

text \<open>
  The statistics of that run; and a run in which the thread is held up once for
  2147484649 cycles (a little under a second at 2.4 GHz) after a first gap of 1000
  cycles, with the statistics the program computes for it.
\<close>

definition summarised_thread :: thread where
  "summarised_thread = sampled_thread\<lparr>sorted_p := [0, 1, 0, 0], int_n := 2,
     int_min := 980, int_max := 3990, int_mean := 2485, int_median := 3990, int_90 := 3990,
     int_99 := 3990, int_999 := 3990, int_9999 := 3990, int_99999 := 3990\<rparr>"

definition obs_stall :: "(command \<times> stamp_t) list" where
  "obs_stall = [(GO, 1000), (GO, 1010), (GO, 2147485659), (STOP, 2147485659)]"

definition stalled_thread :: thread where
  "stalled_thread = armed_thread\<lparr>interruptions :=
       [\<lparr>ts = 1000, diff = 1000\<rparr>, \<lparr>ts = 2147485659, diff = 2147484649\<rparr>, \<lparr>ts = 0, diff = 0\<rparr>,
        \<lparr>ts = 0, diff = 0\<rparr>],
     c_interruption := 2, int_total := 2147485649\<rparr>"

definition stalled_stats :: thread where
  "stalled_stats = stalled_thread\<lparr>sorted_p := [1, 0, 0, 0], int_n := 2,
     int_min := 2147484649, int_max := 1000, int_mean := 1073742824, int_median := 1000,
     int_90 := 1000, int_99 := 1000, int_999 := 1000, int_9999 := 1000, int_99999 := 1000\<rparr>"

text \<open>
  A run of two threads, and what one of them meets in an undisturbed start: it is pinned,
  gets its memory, reads \<^verbatim>\<open>WAIT\<close> twice and then \<^verbatim>\<open>GO\<close>, measures the same frequency
  twice within 0.1 percent, finds only itself counted as running at its first read of
  that counter and both threads at the second, samples as above, and is the second to
  finish.
\<close>

definition g_pair :: global where
  "g_pair = g_four\<lparr>n_threads := 2\<rparr>"

definition env_plain :: thread_env where
  "env_plain = \<lparr>affinity_rc = 0, malloc_ok = True, junk = (\<lambda>_. 0),
     wait_polls = [WAIT, WAIT, GO], hz_samples = [2400000000, 2400100000],
     running_polls = [1, 2], start_stamp = 10, first_stamp = 20, samples = obs_quiet,
     stop_stamp = 6000, finished_polls = [2]\<rparr>"

text \<open>
  A configuration with no room for any record, as \<^verbatim>\<open>--max 0\<close> gives for the calibration
  run and \<^verbatim>\<open>--runtime 0\<close> for the full run; and a thread that recorded 500 interruptions.
\<close>

definition g_none :: global where
  "g_none = g_four\<lparr>max_interruptions := 0\<rparr>"

definition thread_500 :: thread where
  "thread_500 = zero_thread\<lparr>c_interruption := 500\<rparr>"

section \<open>Machine arithmetic\<close>

text \<open>
  How the conversions between \<^verbatim>\<open>unsigned\<close>, \<^verbatim>\<open>int\<close> and \<^verbatim>\<open>uint64_t\<close> act on values that
  fit the narrower type.
\<close>

lemma sint_of_int_32:
  assumes "- (2 ^ 31) \<le> k" and "k < 2 ^ 31"
  shows "sint (word_of_int k :: 32 word) = k"
proof -
  have "sint (word_of_int k :: 32 word) = (k + 2 ^ 31) mod 2 ^ 32 - 2 ^ 31"
    using int_word_sint [of k, where 'a = 32] by simp
  also have "(k + 2 ^ 31) mod 2 ^ 32 = k + 2 ^ 31"
    using assms by (intro mod_pos_pos_trivial) simp_all
  finally show ?thesis by simp
qed

lemma ucast_diff_64_32:
  "(ucast (x - y :: 64 word) :: 32 word) = word_of_int (uint x - uint y)"
proof -
  have down: "is_down (ucast :: 64 word \<Rightarrow> 32 word)" by (simp add: is_down)
  have "(ucast (word_of_int (uint x - uint y) :: 64 word) :: 32 word) =
      word_of_int (uint x - uint y)"
    using down by (rule ucast_down_wi)
  then show ?thesis by (simp only: word_sub_wi [symmetric])
qed

lemma sint_of_nat_32:
  assumes "n < 2 ^ 31"
  shows "sint (word_of_nat n :: 32 word) = int n"
proof -
  have "sint (word_of_int (int n) :: 32 word) = (int n + 2 ^ 31) mod 2 ^ 32 - 2 ^ 31"
    using int_word_sint [of "int n", where 'a = 32] by simp
  also have "(int n + 2 ^ 31) mod 2 ^ 32 = int n + 2 ^ 31"
    using assms by (intro mod_pos_pos_trivial) simp_all
  finally show ?thesis by simp
qed

lemma unat_of_nat_32:
  assumes "n < 2 ^ 32"
  shows "unat (word_of_nat n :: 32 word) = n"
  using assms by (simp add: unat_of_nat)

lemma sint_eq_unat_32:
  assumes "unat w < 2 ^ 31"
  shows "sint (w :: 32 word) = int (unat w)"
proof -
  have "sint (word_of_nat (unat w) :: 32 word) = int (unat w)"
    using assms by (rule sint_of_nat_32)
  then show ?thesis by simp
qed

lemma nat_uint_16: "nat (uint (m :: 32 word) * 16) div 16 = unat m"
proof -
  have "uint m * 16 = int (unat m * 16)" by simp
  then have "nat (uint m * 16) = unat m * 16" by (simp only: nat_int)
  then show ?thesis by simp
qed

section \<open>Rounding of the percentile indices\<close>

lemma bitlen_less: "N < 2 ^ bitlen N"
proof (induction N rule: bitlen.induct)
  case (1 n)
  show ?case
  proof (cases "n = 0")
    case True
    then show ?thesis by (simp add: bitlen.simps)
  next
    case False
    with 1 have "n div 2 < 2 ^ bitlen (n div 2)" by simp
    then have "n < 2 * 2 ^ bitlen (n div 2)" by linarith
    with False show ?thesis by (subst bitlen.simps) simp
  qed
qed

lemma bitlen_le: "N < 2 ^ k \<Longrightarrow> bitlen N \<le> k"
proof (induction N arbitrary: k rule: bitlen.induct)
  case (1 n)
  show ?case
  proof (cases "n = 0")
    case True
    then show ?thesis by (simp add: bitlen.simps)
  next
    case False
    with "1.prems" obtain j where k: "k = Suc j" by (cases k) auto
    with "1.prems" have "n div 2 < 2 ^ j" by simp
    from "1.IH" [OF False this] k False show ?thesis by (subst bitlen.simps) simp
  qed
qed

text \<open>
  \<open>round53 N\<close> is a multiple of \<open>2 ^ s\<close>, where \<open>s = bitlen N - 53\<close> is the number of bits
  dropped; it lies at most half of \<open>2 ^ s\<close> away from \<open>N\<close>, and goes up when more than
  half is dropped.
\<close>

lemma round53_lower:
  fixes N :: nat
  shows "N div 2 ^ (bitlen N - 53) * 2 ^ (bitlen N - 53) \<le> round53 N"
  by (simp add: round53_def Let_def)

lemma round53_up:
  fixes N :: nat
  assumes "2 ^ (bitlen N - 53) < 2 * (N mod 2 ^ (bitlen N - 53))"
  shows "round53 N = (N div 2 ^ (bitlen N - 53) + 1) * 2 ^ (bitlen N - 53)"
  using assms by (simp add: round53_def Let_def)

lemma round_up_step:
  fixes q S r :: nat
  assumes "S \<le> 2 * r"
  shows "2 * ((q + 1) * S) \<le> 2 * (q * S + r) + S"
  using assms by (simp add: algebra_simps)

lemma round53_upper:
  fixes N :: nat
  shows "2 * round53 N \<le> 2 * N + 2 ^ (bitlen N - 53)"
proof -
  let ?s = "bitlen N - 53"
  let ?q = "N div 2 ^ ?s"
  let ?r = "N mod 2 ^ ?s"
  have N: "N = ?q * 2 ^ ?s + ?r" by (rule div_mult_mod_eq [symmetric])
  show ?thesis
  proof (cases "2 ^ ?s < 2 * ?r \<or> (2 ^ ?s = 2 * ?r \<and> odd ?q)")
    case True
    then have R: "round53 N = (?q + 1) * 2 ^ ?s" by (simp add: round53_def Let_def)
    from True have "2 ^ ?s \<le> 2 * ?r" by auto
    then have "2 * ((?q + 1) * 2 ^ ?s) \<le> 2 * (?q * 2 ^ ?s + ?r) + 2 ^ ?s"
      by (rule round_up_step)
    then show ?thesis unfolding R N [symmetric] .
  next
    case False
    then have R: "round53 N = ?q * 2 ^ ?s" by (simp add: round53_def Let_def)
    have "?q * 2 ^ ?s \<le> N" by simp
    then have "2 * (?q * 2 ^ ?s) \<le> 2 * N + 2 ^ ?s" by linarith
    then show ?thesis unfolding R .
  qed
qed

lemma div_between:
  fixes R m d :: nat
  assumes "m * d \<le> R" and "R < (m + 1) * d"
  shows "R div d = m"
  using assms by (metis Suc_eq_plus1 div_nat_eqI mult.commute)


lemma round53_shift_bound:
  fixes n c :: nat
  assumes "n < 2 ^ 31" and "c < 2 ^ 53"
  shows "bitlen (n * c) - 53 \<le> 31"
proof -
  have "n * c \<le> 2 ^ 31 * c" using assms(1) by simp
  also have "\<dots> < 2 ^ 31 * 2 ^ 53" using assms(2) by simp
  finally have "n * c < 2 ^ 84" by simp
  then have "bitlen (n * c) \<le> 84" by (rule bitlen_le)
  then show ?thesis by simp
qed

lemma round53_keeps_multiple:
  fixes N m e :: nat
  assumes "m * 2 ^ e \<le> N" and "bitlen N - 53 \<le> e"
  shows "m * 2 ^ e \<le> round53 N"
proof -
  let ?s = "bitlen N - 53"
  have "(2::nat) ^ ?s dvd 2 ^ e" using assms(2) by (rule le_imp_power_dvd)
  then have dvd: "(2::nat) ^ ?s dvd m * 2 ^ e" by simp
  have "m * 2 ^ e div 2 ^ ?s \<le> N div 2 ^ ?s" using assms(1) by (rule div_le_mono)
  then have "m * 2 ^ e div 2 ^ ?s * 2 ^ ?s \<le> N div 2 ^ ?s * 2 ^ ?s" by simp
  then have "m * 2 ^ e \<le> N div 2 ^ ?s * 2 ^ ?s" using dvd by simp
  also have "\<dots> \<le> round53 N" by (rule round53_lower)
  finally show ?thesis .
qed


text \<open>
  The index computed in \<^verbatim>\<open>double\<close> is the exact \<open>floor (n * P / Q)\<close> for every count
  \<open>n\<close> below \<open>2 ^ 31\<close>, when the constant \<open>c / 2 ^ e\<close> is the \<^verbatim>\<open>double\<close> nearest to
  \<open>P / Q\<close>. Two cases: the constant lies above \<open>P / Q\<close> by \<open>D / (Q * 2 ^ e)\<close>, and the
  product can only err upwards, by far less than the distance \<open>1 / Q\<close> to the next
  integer; or it lies below, and where \<open>n * P / Q\<close> is an integer the product falls
  short of it by less than half a unit in the last place, and is rounded up to it.
\<close>

lemma round53_below_next:
  fixes N Q m E :: nat
  assumes "2 * (N * Q) + 2 ^ (bitlen N - 53) * Q < 2 * ((m + 1) * E * Q)"
  shows "round53 N < (m + 1) * E"
proof -
  have "2 * round53 N * Q \<le> (2 * N + 2 ^ (bitlen N - 53)) * Q"
    using round53_upper [of N] by (rule mult_le_mono1)
  also have "\<dots> = 2 * (N * Q) + 2 ^ (bitlen N - 53) * Q" by (simp add: algebra_simps)
  also have "\<dots> < 2 * ((m + 1) * E * Q)" by (rule assms)
  finally have "round53 N * Q < (m + 1) * E * Q" by simp
  then show ?thesis by simp
qed

lemma upper_sum:
  fixes A1 A2 A3 A4 A5 E D Q :: nat
  assumes "A2 + E \<le> A5" and "A3 \<le> 2147483648 * D" and "A4 \<le> 2147483648 * Q"
    and "4294967296 * D + 2147483648 * Q < 2 * E"
  shows "2 * (A1 + A2 + A3) + A4 < 2 * (A1 + A5)"
proof -
  have "2 * A3 + A4 < 2 * E" using assms(2,3,4) by linarith
  with assms(1) show ?thesis by simp
qed

lemma pct_index_rounded_up_constant:
  fixes n c e P Q D :: nat
  assumes cQ: "c * Q = P * 2 ^ e + D"
    and n: "n < 2 ^ 31" and c: "c < 2 ^ 53" and e: "31 \<le> e" and Q: "0 < Q"
    and small: "4294967296 * D + 2147483648 * Q < 2 * 2 ^ e"
  shows "pct_index n c e = n * P div Q"
proof -
  define N where "N = n * c"
  define m where "m = n * P div Q"
  define f where "f = n * P mod Q"
  define E :: nat where "E = 2 ^ e"
  define S :: nat where "S = 2 ^ (bitlen N - 53)"
  have nP: "n * P = m * Q + f" by (simp add: m_def f_def)
  have f: "f < Q" using Q by (simp add: f_def)
  have "N * Q = n * (c * Q)" by (simp add: N_def)
  also have "\<dots> = n * (P * E + D)" by (simp only: cQ E_def)
  also have "\<dots> = n * P * E + n * D" by (simp add: algebra_simps)
  also have "\<dots> = (m * Q + f) * E + n * D" by (simp only: nP)
  finally have NQ: "N * Q = m * Q * E + f * E + n * D" by (simp add: algebra_simps)
  have s: "bitlen N - 53 \<le> 31" unfolding N_def using n c by (rule round53_shift_bound)
  have "S \<le> 2 ^ 31" unfolding S_def using s by (intro power_increasing) simp_all
  then have SQ: "S * Q \<le> 2147483648 * Q" by simp
  have nD: "n * D \<le> 2147483648 * D" using n by simp
  have "(f + 1) * E \<le> Q * E" using f by (intro mult_le_mono1) simp
  then have fE: "f * E + E \<le> Q * E" by (simp add: algebra_simps)
  have "m * E * Q \<le> N * Q" by (simp add: NQ algebra_simps)
  then have "m * E \<le> N" using Q by simp
  then have lower: "m * E \<le> round53 N"
    unfolding E_def using s e by (intro round53_keeps_multiple) simp_all
  have next_mult: "(m + 1) * E * Q = m * Q * E + Q * E" by (simp add: algebra_simps)
  have "2 * (N * Q) + S * Q < 2 * ((m + 1) * E * Q)"
    unfolding next_mult NQ using fE nD SQ small [folded E_def] by (rule upper_sum)
  then have upper: "round53 N < (m + 1) * E"
    unfolding S_def by (rule round53_below_next)
  from lower upper have "round53 N div E = m" by (rule div_between)
  then show ?thesis by (simp add: pct_index_def N_def E_def m_def)
qed

lemma pct_index_90: "n < 2 ^ 31 \<Longrightarrow> pct_index n 8106479329266893 53 = n * 9 div 10"
  by (rule pct_index_rounded_up_constant [where D = 2]) simp_all

lemma pct_index_9999: "n < 2 ^ 31 \<Longrightarrow> pct_index n 4503149267407759 52 = n * 9999 div 10000"
  by (rule pct_index_rounded_up_constant [where D = 496]) simp_all

lemma pct_index_99999: "n < 2 ^ 31 \<Longrightarrow> pct_index n 9007109182748445 53 = n * 99999 div 100000"
  by (rule pct_index_rounded_up_constant [where D = 40992]) simp_all


lemma round53_reaches_multiple:
  fixes N k S d :: nat
  assumes S: "S = 2 ^ (bitlen N - 53)" and Nd: "N + d = (k + 1) * S" and d: "2 * d < S"
    and d0: "0 < d"
  shows "round53 N = (k + 1) * S"
proof -
  have "N + d = k * S + S" using Nd by (simp add: algebra_simps)
  with d have N: "N = k * S + (S - d)" by linarith
  have r: "S - d < S" using d d0 by linarith
  have q: "N div S = k" by (subst N) (use r in simp)
  have m: "N mod S = S - d" by (subst N) (use r in simp)
  have "S < 2 * (N mod S)" unfolding m using d by linarith
  then have "round53 N = (N div S + 1) * S"
    unfolding S by (rule round53_up)
  then show ?thesis by (simp only: q)
qed

lemma upper_sum_down:
  fixes A B C E M X Y :: nat
  assumes "B + E \<le> C" and "A + Y = M + B" and "X < 2 * E"
  shows "2 * A + X < 2 * (M + C)"
  using assms by presburger

lemma pct_index_rounded_down_constant:
  fixes n c e P Q D :: nat
  assumes cQ: "c * Q + D = P * 2 ^ e"
    and n: "n < 2 ^ 31" and c1: "2 ^ 51 \<le> c" and c: "c < 2 ^ 53" and e: "31 \<le> e"
    and Q: "0 < Q" and D: "0 < D" and D8: "8 * D \<le> Q"
    and Dsmall: "2147483648 * D \<le> 2 ^ e" and Qsmall: "2147483648 * Q < 2 * 2 ^ e"
  shows "pct_index n c e = n * P div Q"
proof -
  define N where "N = n * c"
  define m where "m = n * P div Q"
  define f where "f = n * P mod Q"
  define E :: nat where "E = 2 ^ e"
  define S :: nat where "S = 2 ^ (bitlen N - 53)"
  have nP: "n * P = m * Q + f" by (simp add: m_def f_def)
  have f: "f < Q" using Q by (simp add: f_def)
  have "N * Q + n * D = n * (c * Q + D)" by (simp add: N_def algebra_simps)
  also have "\<dots> = n * (P * E)" by (simp only: cQ E_def)
  also have "\<dots> = n * P * E" by simp
  also have "\<dots> = (m * Q + f) * E" by (simp only: nP)
  finally have NQ: "N * Q + n * D = m * Q * E + f * E" by (simp add: algebra_simps)
  have s: "bitlen N - 53 \<le> 31" unfolding N_def using n c by (rule round53_shift_bound)
  have se: "bitlen N - 53 \<le> e" using s e by simp
  have S31: "S \<le> 2 ^ 31" unfolding S_def using s by (intro power_increasing) simp_all
  then have SQ: "S * Q \<le> 2147483648 * Q" by simp
  have nD: "n * D \<le> 2147483648 * D" using n by simp
  have "(f + 1) * E \<le> Q * E" using f by (intro mult_le_mono1) simp
  then have fE: "f * E + E \<le> Q * E" by (simp add: algebra_simps)
  have next_mult: "(m + 1) * E * Q = m * Q * E + Q * E" by (simp add: algebra_simps)
  have "S * Q < 2 * E" unfolding E_def using SQ Qsmall by linarith
  with fE NQ have "2 * (N * Q) + S * Q < 2 * (m * Q * E + Q * E)" by (rule upper_sum_down)
  then have "2 * (N * Q) + S * Q < 2 * ((m + 1) * E * Q)" by (simp only: next_mult)
  then have upper: "round53 N < (m + 1) * E"
    unfolding S_def by (rule round53_below_next)
  have lower: "m * E \<le> round53 N"
  proof (cases "f = 0 \<and> 0 < m")
    case False
    have "m * E \<le> N"
    proof (cases "m = 0")
      case True
      then show ?thesis by simp
    next
      case pos: False
      with False have "0 < f" by simp
      then have "1 * E \<le> f * E" by (intro mult_le_mono1) simp
      then have "E \<le> f * E" by simp
      moreover have "2147483648 * D \<le> E" using Dsmall by (simp only: E_def)
      ultimately have "n * D \<le> f * E" using nD by linarith
      with NQ have "m * Q * E \<le> N * Q" by linarith
      then have "m * E * Q \<le> N * Q" by (simp add: algebra_simps)
      then show ?thesis using Q by simp
    qed
    then show ?thesis unfolding E_def using se by (rule round53_keeps_multiple)
  next
    case True
    then have f0: "f = 0" and m: "0 < m" by simp_all
    from NQ f0 have NQ0: "N * Q + n * D = m * E * Q" by (simp add: algebra_simps)
    have "N * Q \<le> N * Q + n * D" by simp
    also note NQ0
    finally have "N * Q \<le> m * E * Q" .
    then have Nle: "N \<le> m * E" using Q by simp
    define d where "d = m * E - N"
    have Nd: "N + d = m * E" using Nle by (simp add: d_def)
    have "N * Q + d * Q = (N + d) * Q" by (simp add: algebra_simps)
    also have "\<dots> = m * E * Q" by (simp only: Nd)
    also have "\<dots> = N * Q + n * D" by (simp only: NQ0)
    finally have dQ: "d * Q = n * D" by simp
    have "N < 2 ^ bitlen N" by (rule bitlen_less)
    also have "(2::nat) ^ bitlen N \<le> 2 ^ (bitlen N - 53 + 53)"
      by (intro power_increasing) simp_all
    also have "\<dots> = S * 2 ^ 53" by (simp add: S_def power_add)
    finally have "N < S * 2 ^ 53" .
    moreover have "n * 2 ^ 51 \<le> N" unfolding N_def using c1 by (rule mult_le_mono2)
    ultimately have "n * 2 ^ 51 < 4 * S * 2 ^ 51" by simp
    then have nS: "n < 4 * S" by simp
    then have "n * D < 4 * S * D" using D by simp
    then have "2 * (n * D) < S * (8 * D)" by (simp add: algebra_simps)
    also have "\<dots> \<le> S * Q" using D8 by (rule mult_le_mono2)
    finally have "2 * (n * D) < S * Q" .
    moreover have "2 * d * Q = 2 * (n * D)" using dQ by simp
    ultimately have "2 * d * Q < S * Q" by (simp only:)
    then have d2: "2 * d < S" by simp
    have "0 < n"
    proof (rule ccontr)
      assume "\<not> 0 < n"
      then have "m = 0" by (simp add: m_def)
      with m show False by simp
    qed
    then have "0 < d * Q" using D by (simp add: dQ)
    then have d0: "0 < d" by simp
    have "(2::nat) ^ (bitlen N - 53) dvd 2 ^ e" using se by (rule le_imp_power_dvd)
    then have "S dvd m * E" by (simp add: S_def E_def)
    then obtain k where k: "m * E = S * k" by (rule dvdE)
    have "0 < m * E" using m by (simp add: E_def)
    with k have "0 < k" by (cases k) simp_all
    then obtain j where j: "k = j + 1" by (cases k) simp_all
    have "N + d = (j + 1) * S" using Nd k j by (simp add: algebra_simps)
    with S_def have "round53 N = (j + 1) * S" using d2 d0 by (rule round53_reaches_multiple)
    then have "round53 N = m * E" using k j by (simp add: algebra_simps)
    then show ?thesis by simp
  qed
  from lower upper have "round53 N div E = m" by (rule div_between)
  then show ?thesis by (simp add: pct_index_def N_def E_def m_def)
qed

lemma pct_index_99: "n < 2 ^ 31 \<Longrightarrow> pct_index n 4458563631096791 52 = n * 99 div 100"
  by (rule pct_index_rounded_down_constant [where D = 4]) simp_all

lemma pct_index_999: "n < 2 ^ 31 \<Longrightarrow> pct_index n 8998192055486251 53 = n * 999 div 1000"
  by (rule pct_index_rounded_down_constant [where D = 8]) simp_all

section \<open>Properties of the sampling loop\<close>

lemma map_ts_gaps: "map ts (gaps prev ss) = ss"
  by (induction ss arbitrary: prev) simp_all

lemma drop_take_step:
  assumes "i < i'" and "i' \<le> length m"
  shows "drop i (take i' m) = m ! i # drop (Suc i) (take i' m)"
proof -
  from assms have "i < length (take i' m)" by simp
  then have "drop i (take i' m) = take i' m ! i # drop (Suc i) (take i' m)"
    by (rule Cons_nth_drop_Suc [symmetric])
  with assms show ?thesis by simp
qed

lemma nth_from_take:
  assumes "take (Suc i) m' = take (Suc i) m"
  shows "m' ! i = m ! i"
proof -
  have "m' ! i = take (Suc i) m' ! i" by simp
  also have "\<dots> = take (Suc i) m ! i" using assms by simp
  also have "\<dots> = m ! i" by simp
  finally show ?thesis .
qed

lemma take_from_take:
  assumes "take (Suc i) m' = take (Suc i) m"
  shows "take i m' = take i m"
proof -
  have "take i m' = take i (take (Suc i) m')" by (simp add: min_def)
  also have "\<dots> = take i (take (Suc i) m)" using assms by simp
  also have "\<dots> = take i m" by (simp add: min_def)
  finally show ?thesis .
qed

text \<open>
  The loop invariant, read off at the end of a run that returns: the run executed the
  body \<open>k\<close> times, every test before found \<^verbatim>\<open>GO\<close>, the slots below the old cursor are
  as they were, the slots between the old and the new cursor are exactly the candidates
  at or above the threshold, in order, and the tot grew by their sum.
\<close>

lemma doit_loop_returns:
  assumes "doit_loop i_end thr obs mem i prev tot = Inr (mem', i', tot')"
    and "i \<le> length mem"
  shows "\<exists>k\<le>length obs.
           (\<forall>x\<in>set (take k obs). fst x = GO) \<and>
           i \<le> i' \<and> i' \<le> length mem \<and> length mem' = length mem \<and>
           take i mem' = take i mem \<and>
           drop i (take i' mem') = filter (\<lambda>r. thr \<le> diff r) (gaps prev (map snd (take k obs))) \<and>
           tot' = tot + sum_list (map diff (drop i (take i' mem'))) \<and>
           ((k < length obs \<and> fst (obs ! k) \<noteq> GO) \<or> i' = i_end)"
  using assms
proof (induction obs arbitrary: mem i prev tot)
  case Nil
  then show ?case by simp
next
  case (Cons ob rest)
  obtain c now where ob: "ob = (c, now)" by (cases ob)
  show ?case
  proof (cases "c = GO")
    case False
    with Cons.prems(1) ob have "mem' = mem" "i' = i" "tot' = tot" by simp_all
    have "(\<forall>x\<in>set (take 0 (ob # rest)). fst x = GO) \<and>
           i \<le> i' \<and> i' \<le> length mem \<and> length mem' = length mem \<and>
           take i mem' = take i mem \<and>
           drop i (take i' mem') = filter (\<lambda>r. thr \<le> diff r) (gaps prev (map snd (take 0 (ob # rest)))) \<and>
           tot' = tot + sum_list (map diff (drop i (take i' mem'))) \<and>
           ((0 < length (ob # rest) \<and> fst ((ob # rest) ! 0) \<noteq> GO) \<or> i' = i_end)"
      using Cons.prems(2) ob False \<open>mem' = mem\<close> \<open>i' = i\<close> \<open>tot' = tot\<close> by simp
    moreover have "0 \<le> length (ob # rest)" by simp
    ultimately show ?thesis by blast
  next
    case go: True
    from Cons.prems(1) ob go have inb: "i < length mem"
      by (auto split: if_splits)
    define d where "d = now - prev"
    define m1 where "m1 = mem[i := \<lparr>ts = now, diff = d\<rparr>]"
    have m1_len: "length m1 = length mem" by (simp add: m1_def)
    have m1_take: "take i m1 = take i mem" by (simp add: m1_def)
    have m1_nth: "m1 ! i = \<lparr>ts = now, diff = d\<rparr>" using inb by (simp add: m1_def)
    show ?thesis
    proof (cases "thr \<le> d")
      case below: False
      with Cons.prems(1) ob go inb
      have run: "doit_loop i_end thr rest m1 i now tot = Inr (mem', i', tot')"
        by (simp add: Let_def d_def m1_def)
      have "i \<le> length m1" using inb m1_len by simp
      from Cons.IH [OF run this] obtain k where k: "k \<le> length rest"
        "\<forall>x\<in>set (take k rest). fst x = GO"
        "i \<le> i'" "i' \<le> length m1" "length mem' = length m1" "take i mem' = take i m1"
        "drop i (take i' mem') = filter (\<lambda>r. thr \<le> diff r) (gaps now (map snd (take k rest)))"
        "tot' = tot + sum_list (map diff (drop i (take i' mem')))"
        "(k < length rest \<and> fst (rest ! k) \<noteq> GO) \<or> i' = i_end"
        by blast
      have "(\<forall>x\<in>set (take (Suc k) (ob # rest)). fst x = GO) \<and>
           i \<le> i' \<and> i' \<le> length mem \<and> length mem' = length mem \<and>
           take i mem' = take i mem \<and>
           drop i (take i' mem') =
             filter (\<lambda>r. thr \<le> diff r) (gaps prev (map snd (take (Suc k) (ob # rest)))) \<and>
           tot' = tot + sum_list (map diff (drop i (take i' mem'))) \<and>
           ((Suc k < length (ob # rest) \<and> fst ((ob # rest) ! Suc k) \<noteq> GO) \<or> i' = i_end)"
        using k below ob go m1_len m1_take by (simp add: d_def)
      moreover have "Suc k \<le> length (ob # rest)" using k(1) by simp
      ultimately show ?thesis by blast
    next
      case above: True
      show ?thesis
      proof (cases "Suc i = i_end")
        case True
        with Cons.prems(1) ob go inb above
        have res: "mem' = m1" "i' = Suc i" "tot' = tot + d"
          by (simp_all add: Let_def d_def m1_def)
        have "drop i (take (Suc i) m1) = [m1 ! i]"
          using inb m1_len by (simp add: drop_take_step)
        then have "(\<forall>x\<in>set (take 1 (ob # rest)). fst x = GO) \<and>
           i \<le> i' \<and> i' \<le> length mem \<and> length mem' = length mem \<and>
           take i mem' = take i mem \<and>
           drop i (take i' mem') =
             filter (\<lambda>r. thr \<le> diff r) (gaps prev (map snd (take 1 (ob # rest)))) \<and>
           tot' = tot + sum_list (map diff (drop i (take i' mem'))) \<and>
           ((1 < length (ob # rest) \<and> fst ((ob # rest) ! 1) \<noteq> GO) \<or> i' = i_end)"
          using res True inb above ob go m1_len m1_take m1_nth by (simp add: d_def)
        moreover have "1 \<le> length (ob # rest)" by simp
        ultimately show ?thesis by blast
      next
        case False
        with Cons.prems(1) ob go inb above
        have run: "doit_loop i_end thr rest m1 (Suc i) now (tot + d) = Inr (mem', i', tot')"
          by (simp add: Let_def d_def m1_def)
        have "Suc i \<le> length m1" using inb m1_len by simp
        from Cons.IH [OF run this] obtain k where k: "k \<le> length rest"
          "\<forall>x\<in>set (take k rest). fst x = GO"
          "Suc i \<le> i'" "i' \<le> length m1" "length mem' = length m1"
          "take (Suc i) mem' = take (Suc i) m1"
          "drop (Suc i) (take i' mem') =
             filter (\<lambda>r. thr \<le> diff r) (gaps now (map snd (take k rest)))"
          "tot' = tot + d + sum_list (map diff (drop (Suc i) (take i' mem')))"
          "(k < length rest \<and> fst (rest ! k) \<noteq> GO) \<or> i' = i_end"
          by blast
        have nth: "mem' ! i = \<lparr>ts = now, diff = d\<rparr>"
          using nth_from_take [OF k(6)] m1_nth by simp
        have pre: "take i mem' = take i mem"
          using take_from_take [OF k(6)] m1_take by simp
        have split: "drop i (take i' mem') = \<lparr>ts = now, diff = d\<rparr> # drop (Suc i) (take i' mem')"
          using drop_take_step [of i i' mem'] k(3,4,5) nth by simp
        have "(\<forall>x\<in>set (take (Suc k) (ob # rest)). fst x = GO) \<and>
           i \<le> i' \<and> i' \<le> length mem \<and> length mem' = length mem \<and>
           take i mem' = take i mem \<and>
           drop i (take i' mem') =
             filter (\<lambda>r. thr \<le> diff r) (gaps prev (map snd (take (Suc k) (ob # rest)))) \<and>
           tot' = tot + sum_list (map diff (drop i (take i' mem'))) \<and>
           ((Suc k < length (ob # rest) \<and> fst ((ob # rest) ! Suc k) \<noteq> GO) \<or> i' = i_end)"
          using k above ob go m1_len pre split by (simp add: d_def)
        moreover have "Suc k \<le> length (ob # rest)" using k(1) by simp
        ultimately show ?thesis by blast
      qed
    qed
  qed
qed

lemma thread_init_four: "thread_init g_four True (\<lambda>_. 0) zero_thread = Inr armed_thread"
proof -
  have slots: "replicate 4 x = [x, x, x, x]" for x :: interruption
    by (simp add: numeral_eq_Suc)
  have ptrs: "map (\<lambda>_. 0) [0..<4] = [0, 0, 0, 0 :: nat]"
    by (simp add: upt_rec)
  show ?thesis
    by (simp add: thread_init_def g_four_def armed_thread_def zero_thread_def slots ptrs)
qed

lemma doit_quiet: "doit g_four 20 obs_quiet armed_thread 900 = Inr sampled_thread"
  by (simp add: doit_def g_four_def obs_quiet_def armed_thread_def sampled_thread_def
      zero_thread_def)

lemma foldl_add_diff: "foldl (\<lambda>sum r. sum + diff r) a rs = a + sum_list (map diff rs)"
  by (induction rs arbitrary: a) (simp_all add: add.assoc)

lemma doit_returns:
  assumes "doit g first obs t thr = Inr t'"
  shows "\<exists>k\<le>length obs.
           (\<forall>x\<in>set (take k obs). fst x = GO) \<and>
           c_interruption t' \<le> length (interruptions t') \<and>
           recorded t' = filter (\<lambda>r. thr \<le> diff r) (gaps first (map snd (take k obs))) \<and>
           int_total t' = sum_list (map diff (recorded t')) \<and>
           ((k < length obs \<and> fst (obs ! k) \<noteq> GO) \<or>
            c_interruption t' = unat (max_interruptions g))"
proof -
  from assms obtain mem' i' tot' where
    run: "doit_loop (unat (max_interruptions g)) thr obs (interruptions t) 0 first 0
            = Inr (mem', i', tot')"
    and t': "t' = t\<lparr>interruptions := mem', c_interruption := i', int_total := tot'\<rparr>"
    by (auto simp: doit_def split: sum.splits)
  from doit_loop_returns [OF run le0] obtain k where k: "k \<le> length obs"
    "\<forall>x\<in>set (take k obs). fst x = GO" "i' \<le> length (interruptions t)"
    "length mem' = length (interruptions t)"
    "drop 0 (take i' mem') = filter (\<lambda>r. thr \<le> diff r) (gaps first (map snd (take k obs)))"
    "tot' = 0 + sum_list (map diff (drop 0 (take i' mem')))"
    "(k < length obs \<and> fst (obs ! k) \<noteq> GO) \<or> i' = unat (max_interruptions g)"
    by blast
  then have "(\<forall>x\<in>set (take k obs). fst x = GO) \<and>
           c_interruption t' \<le> length (interruptions t') \<and>
           recorded t' = filter (\<lambda>r. thr \<le> diff r) (gaps first (map snd (take k obs))) \<and>
           int_total t' = sum_list (map diff (recorded t')) \<and>
           ((k < length obs \<and> fst (obs ! k) \<noteq> GO) \<or>
            c_interruption t' = unat (max_interruptions g))"
    by (simp add: t' recorded_def)
  with k(1) show ?thesis by blast
qed


lemma doit_loop_in_bounds:
  assumes "i < i_end" and "i_end \<le> length mem"
  shows "doit_loop i_end thr obs mem i prev tot \<noteq> Inl (OutOfBounds j) \<and>
         (\<forall>mem' i' tot'. doit_loop i_end thr obs mem i prev tot = Inr (mem', i', tot') \<longrightarrow>
            i' \<le> i_end)"
  using assms
proof (induction obs arbitrary: mem i prev tot)
  case Nil
  then show ?case by simp
next
  case (Cons ob rest)
  obtain c now where ob: "ob = (c, now)" by (cases ob)
  show ?case
  proof (cases "c = GO")
    case False
    with ob Cons.prems show ?thesis by simp
  next
    case go: True
    let ?m1 = "mem[i := \<lparr>ts = now, diff = now - prev\<rparr>]"
    have len: "i_end \<le> length ?m1" using Cons.prems by simp
    show ?thesis
    proof (cases "thr \<le> now - prev")
      case False
      from Cons.IH [OF Cons.prems(1) len] False go ob Cons.prems
      show ?thesis by (simp add: Let_def)
    next
      case above: True
      show ?thesis
      proof (cases "Suc i = i_end")
        case True
        with above go ob Cons.prems show ?thesis by (simp add: Let_def)
      next
        case False
        with Cons.prems have "Suc i < i_end" by simp
        from Cons.IH [OF this len] False above go ob Cons.prems
        show ?thesis by (simp add: Let_def)
      qed
    qed
  qed
qed





text \<open>
  C5. Whenever the sampling loop returns, \<^verbatim>\<open>int_total\<close> is the sum, in 64-bit unsigned
  arithmetic, of the gaps of the records below the cursor; the sum that
  \<^verbatim>\<open>thread_calc_stats\<close> forms over the same records for the mean is the same number.
\<close>

theorem doit_int_total_is_sum_of_gaps:
  assumes "doit g first obs t threshold_cycles = Inr t'"
  shows "int_total t' = sum_list (map diff (recorded t')) \<and> sum_diffs t' = Inr (int_total t')"
proof -
  from doit_returns [OF assms] have
    "c_interruption t' \<le> length (interruptions t')"
    "int_total t' = sum_list (map diff (recorded t'))"
    by blast+
  then show ?thesis
    by (simp add: sum_diffs_def foldl_add_diff recorded_def)
qed

theorem doit_int_total_is_sum_of_gaps_witness:
  "doit g_four 20 obs_quiet armed_thread 900 = Inr sampled_thread \<and>
   int_total sampled_thread = sum_list (map diff (recorded sampled_thread)) \<and>
   sum_diffs sampled_thread = Inr (int_total sampled_thread) \<and>
   int_total sampled_thread = 4970"
  using doit_int_total_is_sum_of_gaps [OF doit_quiet] doit_quiet
  by (simp add: sampled_thread_def)

lemma gaps_member:
  assumes "r \<in> set (gaps prev ss)"
  shows "\<exists>j<length ss. ts r = (prev # ss) ! Suc j \<and> diff r = (prev # ss) ! Suc j - (prev # ss) ! j"
  using assms
proof (induction ss arbitrary: prev)
  case Nil
  then show ?case by simp
next
  case (Cons s ss)
  show ?case
  proof (cases "r = \<lparr>ts = s, diff = s - prev\<rparr>")
    case True
    then have "0 < length (s # ss) \<and> ts r = (prev # s # ss) ! Suc 0 \<and>
        diff r = (prev # s # ss) ! Suc 0 - (prev # s # ss) ! 0"
      by simp
    then show ?thesis by blast
  next
    case False
    with Cons.prems have "r \<in> set (gaps s ss)" by simp
    from Cons.IH [OF this] obtain j where "j < length ss"
      "ts r = (s # ss) ! Suc j" "diff r = (s # ss) ! Suc j - (s # ss) ! j" by blast
    then have "Suc j < length (s # ss) \<and> ts r = (prev # s # ss) ! Suc (Suc j) \<and>
        diff r = (prev # s # ss) ! Suc (Suc j) - (prev # s # ss) ! Suc j"
      by simp
    then show ?thesis by blast
  qed
qed

lemma gaps_take: "gaps prev (take k ss) = take k (gaps prev ss)"
proof (induction ss arbitrary: prev k)
  case Nil
  then show ?case by simp
next
  case (Cons s ss)
  then show ?case by (cases k) simp_all
qed

lemma sorted_ts_filter_gaps:
  assumes "sorted ss"
  shows "sorted (map ts (filter P (gaps prev (take k ss))))"
proof -
  have "sorted (take k ss)" using assms by (rule sorted_wrt_take)
  then have "sorted_wrt (\<lambda>a b. ts a \<le> ts b) (gaps prev (take k ss))"
    by (simp add: sorted_wrt_map [symmetric] map_ts_gaps del: sorted_wrt_map)
  then have "sorted_wrt (\<lambda>a b. ts a \<le> ts b) (filter P (gaps prev (take k ss)))"
    by (rule sorted_wrt_filter)
  then show ?thesis by (simp add: sorted_wrt_map)
qed

text \<open>
  C9. If every read of the cycle counter returns at least what the read before it
  returned, then, whenever the sampling loop returns, the timestamps of the records
  below the cursor do not decrease in buffer order, and the gap of each record is its
  timestamp minus the value of the read just before the read that gave the timestamp.
  (Slots below the cursor are never written again: \<open>doit_loop_keeps_appended\<close> below.)
\<close>

theorem doit_timestamps_nondecreasing:
  assumes "doit g first obs t threshold_cycles = Inr t'"
    and "sorted (first # map snd obs)"
  shows "sorted (map ts (recorded t')) \<and>
         (\<forall>r\<in>set (recorded t'). \<exists>j<length obs.
             ts r = (first # map snd obs) ! Suc j \<and>
             diff r = (first # map snd obs) ! Suc j - (first # map snd obs) ! j)"
proof -
  from doit_returns [OF assms(1)] obtain k where k:
    "recorded t' = filter (\<lambda>r. threshold_cycles \<le> diff r) (gaps first (map snd (take k obs)))"
    by blast
  have rec: "recorded t' =
      filter (\<lambda>r. threshold_cycles \<le> diff r) (gaps first (take k (map snd obs)))"
    using k by (simp add: take_map)
  from assms(2) have "sorted (map snd obs)" by simp
  then have mono: "sorted (map ts (recorded t'))"
    unfolding rec by (rule sorted_ts_filter_gaps)
  have "\<exists>j<length obs. ts r = (first # map snd obs) ! Suc j \<and>
             diff r = (first # map snd obs) ! Suc j - (first # map snd obs) ! j"
    if "r \<in> set (recorded t')" for r
  proof -
    from that rec have "r \<in> set (take k (gaps first (map snd obs)))"
      by (simp add: gaps_take)
    then have "r \<in> set (gaps first (map snd obs))" by (rule in_set_takeD)
    from gaps_member [OF this] show ?thesis by simp
  qed
  with mono show ?thesis by blast
qed

theorem doit_timestamps_nondecreasing_witness:
  "doit g_four 20 obs_quiet armed_thread 900 = Inr sampled_thread \<and>
   sorted (20 # map snd obs_quiet) \<and>
   recorded sampled_thread = [\<lparr>ts = 1000, diff = 980\<rparr>, \<lparr>ts = 5000, diff = 3990\<rparr>] \<and>
   sorted (map ts (recorded sampled_thread)) \<and>
   (\<exists>j<length obs_quiet.
       ts (recorded sampled_thread ! 0) = (20 # map snd obs_quiet) ! Suc j \<and>
       diff (recorded sampled_thread ! 0) =
         (20 # map snd obs_quiet) ! Suc j - (20 # map snd obs_quiet) ! j) \<and>
   (\<exists>j<length obs_quiet.
       ts (recorded sampled_thread ! 1) = (20 # map snd obs_quiet) ! Suc j \<and>
       diff (recorded sampled_thread ! 1) =
         (20 # map snd obs_quiet) ! Suc j - (20 # map snd obs_quiet) ! j)"
proof -
  have mono: "sorted (20 # map snd obs_quiet)" by (simp add: obs_quiet_def)
  have recs: "recorded sampled_thread = [\<lparr>ts = 1000, diff = 980\<rparr>, \<lparr>ts = 5000, diff = 3990\<rparr>]"
    by (simp add: recorded_def sampled_thread_def armed_thread_def zero_thread_def)
  then have mem: "recorded sampled_thread ! 0 \<in> set (recorded sampled_thread)"
    "recorded sampled_thread ! 1 \<in> set (recorded sampled_thread)"
    by simp_all
  from doit_timestamps_nondecreasing [OF doit_quiet mono] mem doit_quiet mono recs
  show ?thesis by blast
qed

text \<open>
  From any state of the loop on, the slots below the cursor stay as they are and the
  cursor does not move back.
\<close>

lemma doit_loop_keeps_appended:
  assumes "doit_loop i_end thr obs mem i prev tot = Inr (mem', i', tot')" and "i \<le> length mem"
  shows "take i mem' = take i mem \<and> i \<le> i'"
  using doit_loop_returns [OF assms] by blast

section \<open>Properties of the statistics\<close>

lemma length_insert_cmp: "length (insert_cmp cmp x ys) = Suc (length ys)"
  by (induction ys) simp_all

lemma length_qsort: "length (qsort cmp xs) = length xs"
  by (induction xs) (simp_all add: qsort_def length_insert_cmp)

text \<open>
  C6. On a thread whose cursor is at the start of its buffer (no records),
  \<^verbatim>\<open>thread_calc_stats\<close> returns normally, without reading either array and without
  dividing, and the count, minimum, maximum, mean, median and all five percentiles it
  stores are 0.
\<close>

theorem thread_calc_stats_empty:
  assumes "c_interruption t = 0"
  shows "\<exists>t'. thread_calc_stats t = Inr t' \<and> int_n t' = 0 \<and> int_min t' = 0 \<and> int_max t' = 0 \<and>
           int_mean t' = 0 \<and> int_median t' = 0 \<and> int_90 t' = 0 \<and> int_99 t' = 0 \<and>
           int_999 t' = 0 \<and> int_9999 t' = 0 \<and> int_99999 t' = 0"
  using assms by (simp add: thread_calc_stats_def)

lemma sort_interruptions_Inr:
  assumes "sort_interruptions t = Inr t1"
  shows "\<exists>n. int n = sint (word_of_nat (c_interruption t) :: 32 word) \<and>
           n \<le> length (sorted_p t) \<and>
           t1 = t\<lparr>sorted_p := qsort (qsort_cmp_interruption (interruptions t)) [0..<n]
                               @ drop n (sorted_p t)\<rparr>"
proof -
  let ?n = "sint (word_of_nat (c_interruption t) :: 32 word)"
  from assms have nn: "0 \<le> ?n" and fit: "?n \<le> int (length (sorted_p t))"
    by (auto simp: sort_interruptions_def unsort_interruptions_def Let_def split: if_splits)
  from assms nn fit have
    "t1 = t\<lparr>sorted_p := qsort (qsort_cmp_interruption (interruptions t)) [0..<nat ?n]
                               @ drop (nat ?n) (sorted_p t)\<rparr>"
    by (auto simp: sort_interruptions_def unsort_interruptions_def Let_def split: if_splits)
  with nn fit show ?thesis by (intro exI [of _ "nat ?n"]) simp
qed

lemma sort_interruptions_twice:
  assumes "sort_interruptions t = Inr t1"
    and "interruptions u = interruptions t" and "c_interruption u = c_interruption t"
    and "sorted_p u = sorted_p t1"
  shows "sort_interruptions u = Inr u"
proof -
  let ?n = "sint (word_of_nat (c_interruption t) :: 32 word)"
  from sort_interruptions_Inr [OF assms(1)] obtain n where n: "int n = ?n"
    "n \<le> length (sorted_p t)"
    "t1 = t\<lparr>sorted_p := qsort (qsort_cmp_interruption (interruptions t)) [0..<n]
                               @ drop n (sorted_p t)\<rparr>"
    by blast
  from assms(1) n(1) have big: "\<not> (2 \<le> ?n \<and> int (length (interruptions t)) < ?n)"
    by (auto simp: sort_interruptions_def unsort_interruptions_def Let_def split: if_splits)
  have sp: "sorted_p u = qsort (qsort_cmp_interruption (interruptions t)) [0..<n]
                               @ drop n (sorted_p t)"
    using assms(4) n(3) by simp
  have len: "length (sorted_p u) = length (sorted_p t)"
    using n(2) by (simp add: sp length_qsort)
  have dr: "drop n (sorted_p u) = drop n (sorted_p t)"
    by (simp add: sp length_qsort)
  have "nat ?n = n" using n(1) by simp
  then show ?thesis
    using big n(1,2) len dr sp assms(2,3)
    by (simp add: sort_interruptions_def unsort_interruptions_def Let_def length_qsort)
qed


lemma ebind_Inr: "ebind m f = Inr y \<longleftrightarrow> (\<exists>x. m = Inr x \<and> f x = Inr y)"
  by (cases m) (simp_all add: ebind_def)

lemma sorted_diff_cong:
  "sorted_p u = sorted_p t \<Longrightarrow> interruptions u = interruptions t \<Longrightarrow> sorted_diff u k = sorted_diff t k"
  by (simp add: sorted_diff_def)

lemma sum_diffs_cong:
  "interruptions u = interruptions t \<Longrightarrow> c_interruption u = c_interruption t \<Longrightarrow> sum_diffs u = sum_diffs t"
  by (simp add: sum_diffs_def)

lemma sort_interruptions_frame:
  assumes "sort_interruptions t = Inr t1"
  shows "\<exists>S. t1 = t\<lparr>sorted_p := S\<rparr>"
  using sort_interruptions_Inr [OF assms] by blast

lemma thread_calc_stats_Inr:
  assumes "thread_calc_stats t = Inr t'"
    and "(word_of_nat (c_interruption t) :: 32 word) \<noteq> 0"
  shows "\<exists>t1 v_min v_max v_median v_90 v_99 v_999 v_9999 v_99999 sum.
    sort_interruptions (t\<lparr>runtime := frc_stop t - frc_start t,
      int_n := word_of_nat (c_interruption t)\<rparr>) = Inr t1 \<and>
    sorted_diff t1 0 = Inr v_min \<and>
    sorted_diff t1 (unat (word_of_nat (c_interruption t) :: 32 word) - 1) = Inr v_max \<and>
    sorted_diff t1 (unat (word_of_nat (c_interruption t) :: 32 word) div 2) = Inr v_median \<and>
    sorted_diff t1 (pct_index (unat (word_of_nat (c_interruption t) :: 32 word))
      8106479329266893 53) = Inr v_90 \<and>
    sorted_diff t1 (pct_index (unat (word_of_nat (c_interruption t) :: 32 word))
      4458563631096791 52) = Inr v_99 \<and>
    sorted_diff t1 (pct_index (unat (word_of_nat (c_interruption t) :: 32 word))
      8998192055486251 53) = Inr v_999 \<and>
    sorted_diff t1 (pct_index (unat (word_of_nat (c_interruption t) :: 32 word))
      4503149267407759 52) = Inr v_9999 \<and>
    sorted_diff t1 (pct_index (unat (word_of_nat (c_interruption t) :: 32 word))
      9007109182748445 53) = Inr v_99999 \<and>
    sum_diffs t1 = Inr sum \<and>
    t' = t1\<lparr>int_min := v_min, int_max := v_max, int_median := v_median,
             int_90 := v_90, int_99 := v_99, int_999 := v_999,
             int_9999 := v_9999, int_99999 := v_99999,
             int_mean := sum div ucast (int_n t1)\<rparr>"
proof -
  from assms have "ebind (sort_interruptions (t\<lparr>runtime := frc_stop t - frc_start t,
      int_n := word_of_nat (c_interruption t)\<rparr>)) (\<lambda>t1.
           ebind (sorted_diff t1 0) (\<lambda>v_min.
           ebind (sorted_diff t1 (unat (word_of_nat (c_interruption t) :: 32 word) - 1)) (\<lambda>v_max.
           ebind (sorted_diff t1 (unat (word_of_nat (c_interruption t) :: 32 word) div 2)) (\<lambda>v_median.
           ebind (sorted_diff t1 (pct_index (unat (word_of_nat (c_interruption t) :: 32 word)) 8106479329266893 53)) (\<lambda>v_90.
           ebind (sorted_diff t1 (pct_index (unat (word_of_nat (c_interruption t) :: 32 word)) 4458563631096791 52)) (\<lambda>v_99.
           ebind (sorted_diff t1 (pct_index (unat (word_of_nat (c_interruption t) :: 32 word)) 8998192055486251 53)) (\<lambda>v_999.
           ebind (sorted_diff t1 (pct_index (unat (word_of_nat (c_interruption t) :: 32 word)) 4503149267407759 52)) (\<lambda>v_9999.
           ebind (sorted_diff t1 (pct_index (unat (word_of_nat (c_interruption t) :: 32 word)) 9007109182748445 53)) (\<lambda>v_99999.
           ebind (sum_diffs t1) (\<lambda>sum.
             Inr (t1\<lparr>int_min := v_min, int_max := v_max, int_median := v_median,
                     int_90 := v_90, int_99 := v_99, int_999 := v_999,
                     int_9999 := v_9999, int_99999 := v_99999,
                     int_mean := sum div ucast (int_n t1)\<rparr>))))))))))) = Inr t'"
    by (simp add: thread_calc_stats_def Let_def)
  then show ?thesis
    unfolding ebind_Inr by blast
qed

text \<open>
  C10. Where \<^verbatim>\<open>thread_calc_stats\<close> returns, the records, the cursor and the other
  results of the test (\<^verbatim>\<open>int_total\<close>, the two timestamps, \<^verbatim>\<open>cpu_mhz\<close>, \<^verbatim>\<open>core_i\<close>) are
  as before: only the array of sorted pointers and the derived fields are written. A
  second application to the result returns the result unchanged, so the statistics of
  the second application are those of the first.
\<close>

theorem thread_calc_stats_keeps_raw_data:
  assumes "thread_calc_stats t = Inr t'"
  shows "interruptions t' = interruptions t \<and> c_interruption t' = c_interruption t \<and>
         int_total t' = int_total t \<and> frc_start t' = frc_start t \<and> frc_stop t' = frc_stop t \<and>
         cpu_mhz t' = cpu_mhz t \<and> core_i t' = core_i t \<and>
         thread_calc_stats t' = Inr t'"
proof (cases "(word_of_nat (c_interruption t) :: 32 word) = 0")
  case True
  with assms have t': "t' = t\<lparr>runtime := frc_stop t - frc_start t, int_n := 0,
      int_min := 0, int_max := 0, int_median := 0, int_90 := 0, int_99 := 0,
      int_999 := 0, int_9999 := 0, int_99999 := 0, int_mean := 0\<rparr>"
    by (simp add: thread_calc_stats_def)
  have "thread_calc_stats t' = Inr t'"
    using True by (simp add: thread_calc_stats_def t')
  then show ?thesis by (simp add: t')
next
  case False
  define t0 where "t0 = t\<lparr>runtime := frc_stop t - frc_start t,
    int_n := word_of_nat (c_interruption t)\<rparr>"
  define n where "n = unat (word_of_nat (c_interruption t) :: 32 word)"
  from thread_calc_stats_Inr [OF assms False]
  obtain t1 v_min v_max v_median v_90 v_99 v_999 v_9999 v_99999 sum where
    srt: "sort_interruptions t0 = Inr t1"
    and rd: "sorted_diff t1 0 = Inr v_min" "sorted_diff t1 (n - 1) = Inr v_max"
      "sorted_diff t1 (n div 2) = Inr v_median"
      "sorted_diff t1 (pct_index n 8106479329266893 53) = Inr v_90"
      "sorted_diff t1 (pct_index n 4458563631096791 52) = Inr v_99"
      "sorted_diff t1 (pct_index n 8998192055486251 53) = Inr v_999"
      "sorted_diff t1 (pct_index n 4503149267407759 52) = Inr v_9999"
      "sorted_diff t1 (pct_index n 9007109182748445 53) = Inr v_99999"
    and sm: "sum_diffs t1 = Inr sum"
    and t': "t' = t1\<lparr>int_min := v_min, int_max := v_max, int_median := v_median,
                     int_90 := v_90, int_99 := v_99, int_999 := v_999,
                     int_9999 := v_9999, int_99999 := v_99999,
                     int_mean := sum div ucast (int_n t1)\<rparr>"
    unfolding t0_def n_def by blast
  from sort_interruptions_frame [OF srt] obtain S where t1: "t1 = t0\<lparr>sorted_p := S\<rparr>" ..
  have raw: "interruptions t' = interruptions t" "c_interruption t' = c_interruption t"
    "int_total t' = int_total t" "frc_start t' = frc_start t" "frc_stop t' = frc_stop t"
    "cpu_mhz t' = cpu_mhz t" "core_i t' = core_i t"
    "runtime t' = frc_stop t - frc_start t" "int_n t' = word_of_nat (c_interruption t)"
    "sorted_p t' = sorted_p t1" "int_n t1 = word_of_nat (c_interruption t)"
    "interruptions t1 = interruptions t" "c_interruption t1 = c_interruption t"
    by (simp_all add: t' t1 t0_def)
  have same: "t'\<lparr>runtime := frc_stop t' - frc_start t',
      int_n := word_of_nat (c_interruption t')\<rparr> = t'"
    using raw by simp
  have srt': "sort_interruptions t' = Inr t'"
    by (rule sort_interruptions_twice [OF srt]) (simp_all add: raw t0_def)
  have rd': "sorted_diff t' k = sorted_diff t1 k" for k
    by (rule sorted_diff_cong) (simp_all add: raw)
  have sm': "sum_diffs t' = sum_diffs t1"
    by (rule sum_diffs_cong) (simp_all add: raw)
  have fin: "t'\<lparr>int_min := v_min, int_max := v_max, int_median := v_median,
                     int_90 := v_90, int_99 := v_99, int_999 := v_999,
                     int_9999 := v_9999, int_99999 := v_99999,
                     int_mean := sum div ucast (word_of_nat (c_interruption t) :: 32 word)\<rparr> = t'"
    by (simp add: t' t1 t0_def)
  have rd2: "sorted_diff t1 (n - Suc 0) = Inr v_max" using rd(2) by simp
  have "thread_calc_stats t' = Inr t'"
    unfolding thread_calc_stats_def Let_def same
    using False by (simp add: raw srt' rd' rd rd2 sm' sm ebind_def n_def [symmetric] fin)
  with raw show ?thesis by simp
qed

section \<open>The statistics when the comparison function is exact\<close>

text \<open>
  Where two gaps are both below \<open>2 ^ 31\<close> cycles, the \<^verbatim>\<open>int\<close> that
  \<^verbatim>\<open>qsort_cmp_interruption\<close> returns is their true difference, and its sign orders them.
\<close>

lemma qsort_cmp_small_gaps:
  assumes "unat (diff (mem ! a)) < 2 ^ 31" and "unat (diff (mem ! b)) < 2 ^ 31"
  shows "qsort_cmp_interruption mem a b \<le> 0 \<longleftrightarrow> diff (mem ! a) \<le> diff (mem ! b)"
proof -
  let ?x = "diff (mem ! a)" and ?y = "diff (mem ! b)"
  have "int (unat ?x) < int (2 ^ 31)" using assms(1) by (simp only: of_nat_less_iff)
  then have x: "0 \<le> uint ?x" "uint ?x < 2 ^ 31" by simp_all
  have "int (unat ?y) < int (2 ^ 31)" using assms(2) by (simp only: of_nat_less_iff)
  then have y: "0 \<le> uint ?y" "uint ?y < 2 ^ 31" by simp_all
  have "qsort_cmp_interruption mem a b = sint (word_of_int (uint ?x - uint ?y) :: 32 word)"
    by (simp only: qsort_cmp_interruption_def ucast_diff_64_32)
  also have "\<dots> = uint ?x - uint ?y"
    using x y by (intro sint_of_int_32) linarith+
  finally have "qsort_cmp_interruption mem a b = uint ?x - uint ?y" .
  then show ?thesis by (simp add: word_le_def)
qed

lemma set_insert_cmp: "set (insert_cmp cmp x ys) = insert x (set ys)"
  by (induction ys) auto

lemma set_qsort: "set (qsort cmp xs) = set xs"
  by (induction xs) (simp_all add: qsort_def set_insert_cmp)

lemma insert_cmp_insort:
  assumes "\<forall>y\<in>set ys. (cmp x y \<le> 0) = (key x \<le> key y)"
  shows "map key (insert_cmp cmp x ys) = insort (key x) (map key ys)"
  using assms by (induction ys) simp_all

lemma qsort_sort:
  assumes "\<forall>x\<in>set xs. \<forall>y\<in>set xs. (cmp x y \<le> 0) = (key x \<le> key y)"
  shows "map key (qsort cmp xs) = sort (map key xs)"
  using assms
proof (induction xs)
  case Nil
  then show ?case by (simp add: qsort_def)
next
  case (Cons x xs)
  have step: "qsort cmp (x # xs) = insert_cmp cmp x (qsort cmp xs)" by (simp add: qsort_def)
  from Cons.prems have "\<forall>y\<in>set (qsort cmp xs). (cmp x y \<le> 0) = (key x \<le> key y)"
    by (simp add: set_qsort)
  then have "map key (insert_cmp cmp x (qsort cmp xs)) = insort (key x) (map key (qsort cmp xs))"
    by (rule insert_cmp_insort)
  also have "map key (qsort cmp xs) = sort (map key xs)"
    using Cons.prems by (intro Cons.IH) simp
  finally show ?case by (simp add: step)
qed

lemma map_nth_upt_take:
  assumes "n \<le> length mem"
  shows "map (\<lambda>p. f (mem ! p)) [0..<n] = map f (take n mem)"
  using assms by (intro nth_equalityI) simp_all

lemma sort_interruptions_small:
  assumes n31: "c_interruption t < 2 ^ 31"
    and len1: "c_interruption t \<le> length (interruptions t)"
    and len2: "c_interruption t \<le> length (sorted_p t)"
  shows "sort_interruptions t =
    Inr (t\<lparr>sorted_p := qsort (qsort_cmp_interruption (interruptions t)) [0..<c_interruption t]
                        @ drop (c_interruption t) (sorted_p t)\<rparr>)"
  using len1 len2 by (simp add: sort_interruptions_def unsort_interruptions_def Let_def
      sint_of_nat_32 [OF n31])

lemma sorted_diff_after_sort:
  assumes len1: "n \<le> length mem"
    and small: "\<forall>r\<in>set (take n mem). unat (diff r) < 2 ^ 31"
    and t1: "interruptions t1 = mem"
      "sorted_p t1 = qsort (qsort_cmp_interruption mem) [0..<n] @ rest"
    and k: "k < n"
  shows "sorted_diff t1 k = Inr (sort (map diff (take n mem)) ! k)"
proof -
  let ?cmp = "qsort_cmp_interruption mem"
  let ?qs = "qsort ?cmp [0..<n]"
  let ?key = "\<lambda>p. diff (mem ! p)"
  have agree: "\<forall>a\<in>set [0..<n]. \<forall>b\<in>set [0..<n]. (?cmp a b \<le> 0) = (?key a \<le> ?key b)"
  proof (intro ballI)
    fix a b assume "a \<in> set [0..<n]" "b \<in> set [0..<n]"
    then have "a < n" "b < n" by simp_all
    with len1 have "mem ! a \<in> set (take n mem)" "mem ! b \<in> set (take n mem)"
      by (auto simp: in_set_conv_nth intro: exI [of _ a] exI [of _ b])
    with small have "unat (diff (mem ! a)) < 2 ^ 31" "unat (diff (mem ! b)) < 2 ^ 31"
      by blast+
    then show "(?cmp a b \<le> 0) = (?key a \<le> ?key b)" by (rule qsort_cmp_small_gaps)
  qed
  have keys: "map ?key ?qs = sort (map diff (take n mem))"
    using qsort_sort [of "[0..<n]" ?cmp ?key, OF agree] map_nth_upt_take [OF len1, of diff]
    by simp
  have lq: "length ?qs = n" by (simp add: length_qsort)
  have "?qs ! k \<in> set ?qs" using k lq by simp
  then have inb: "?qs ! k < n" by (simp add: set_qsort)
  have "map ?key ?qs ! k = ?key (?qs ! k)" using k lq by simp
  with keys have val: "diff (mem ! (?qs ! k)) = sort (map diff (take n mem)) ! k" by simp
  have nth: "sorted_p t1 ! k = ?qs ! k" using k lq by (simp add: t1 nth_append)
  have "k < length (sorted_p t1)" using k lq by (simp add: t1)
  then show ?thesis
    using inb len1 val by (simp add: sorted_diff_def nth t1(1))
qed


lemma rank_below:
  fixes n P Q :: nat
  assumes "0 < n" and "P < Q"
  shows "n * P div Q < n"
proof -
  have "0 < Q" using assms(2) by simp
  moreover have "n * P < n * Q" using assms by simp
  ultimately show ?thesis by (simp add: div_less_iff_less_mult)
qed

lemma rank_mono:
  fixes n P1 Q1 P2 Q2 :: nat
  assumes "0 < Q1" and "0 < Q2" and "P1 * Q2 \<le> P2 * Q1"
  shows "n * P1 div Q1 \<le> n * P2 div Q2"
proof -
  let ?a = "n * P1 div Q1"
  have "?a * Q1 \<le> n * P1" by simp
  then have "?a * Q1 * Q2 \<le> n * P1 * Q2" by (rule mult_le_mono1)
  also have "\<dots> = n * (P1 * Q2)" by simp
  also have "\<dots> \<le> n * (P2 * Q1)" using assms(3) by (rule mult_le_mono2)
  finally have "?a * Q2 * Q1 \<le> n * P2 * Q1" by (simp add: algebra_simps)
  then have "?a * Q2 \<le> n * P2" using assms(1) by simp
  then show ?thesis using assms(2) by (simp add: less_eq_div_iff_mult_less_eq)
qed

lemma rank_indices:
  fixes n :: nat
  assumes "0 < n"
  shows "n - 1 < n" "n div 2 < n" "n * 9 div 10 < n" "n * 99 div 100 < n"
    "n * 999 div 1000 < n" "n * 9999 div 10000 < n" "n * 99999 div 100000 < n"
proof -
  show "n - 1 < n" using assms by simp
  show "n div 2 < n" using assms by simp
  show "n * 9 div 10 < n" using assms by (rule rank_below) simp
  show "n * 99 div 100 < n" using assms by (rule rank_below) simp
  show "n * 999 div 1000 < n" using assms by (rule rank_below) simp
  show "n * 9999 div 10000 < n" using assms by (rule rank_below) simp
  show "n * 99999 div 100000 < n" using assms by (rule rank_below) simp
qed

lemma rank_order:
  fixes n :: nat
  shows "n * 1 div 2 \<le> n * 9 div 10" "n * 9 div 10 \<le> n * 99 div 100"
    "n * 99 div 100 \<le> n * 999 div 1000" "n * 999 div 1000 \<le> n * 9999 div 10000"
    "n * 9999 div 10000 \<le> n * 99999 div 100000"
  by (rule rank_mono; simp)+

text \<open>
  For a buffer of \<open>n\<close> records, \<open>0 < n < 2 ^ 31\<close>, within its arrays, all of whose gaps are
  below \<open>2 ^ 31\<close> cycles, \<^verbatim>\<open>thread_calc_stats\<close> returns, and each statistic is the gap at
  index \<open>floor (n * p)\<close> of the gaps in ascending order: what C3 claims for every buffer.
\<close>

lemma thread_calc_stats_small_gaps:
  assumes n0: "0 < c_interruption t" and n31: "c_interruption t < 2 ^ 31"
    and len1: "c_interruption t \<le> length (interruptions t)"
    and len2: "c_interruption t \<le> length (sorted_p t)"
    and small: "\<forall>r\<in>set (recorded t). unat (diff r) < 2 ^ 31"
  shows "\<exists>t'. thread_calc_stats t = Inr t' \<and>
      int_min t' = sort (map diff (recorded t)) ! 0 \<and>
      int_max t' = sort (map diff (recorded t)) ! (c_interruption t - 1) \<and>
      int_median t' = nearest_rank 1 2 (recorded t) \<and>
      int_90 t' = nearest_rank 9 10 (recorded t) \<and>
      int_99 t' = nearest_rank 99 100 (recorded t) \<and>
      int_999 t' = nearest_rank 999 1000 (recorded t) \<and>
      int_9999 t' = nearest_rank 9999 10000 (recorded t) \<and>
      int_99999 t' = nearest_rank 99999 100000 (recorded t)"
proof -
  define n where "n = c_interruption t"
  define mem where "mem = interruptions t"
  define t0 where "t0 = t\<lparr>runtime := frc_stop t - frc_start t, int_n := word_of_nat n\<rparr>"
  define t1 where "t1 = t0\<lparr>sorted_p := qsort (qsort_cmp_interruption mem) [0..<n]
                        @ drop n (sorted_p t)\<rparr>"
  define ds where "ds = sort (map diff (take n mem))"
  have n32: "n < 2 ^ 32" using n31 by (simp add: n_def)
  have un: "unat (word_of_nat n :: 32 word) = n" using n32 by (rule unat_of_nat_32)
  have nz: "(word_of_nat n :: 32 word) \<noteq> 0"
  proof
    assume "(word_of_nat n :: 32 word) = 0"
    then have "unat (word_of_nat n :: 32 word) = 0" by simp
    with un n0 show False by (simp add: n_def)
  qed
  have srt: "sort_interruptions t0 = Inr t1"
    using sort_interruptions_small [of t0] n31 len1 len2
    by (simp add: t0_def t1_def n_def mem_def)
  have rd: "sorted_diff t1 k = Inr (ds ! k)" if "k < n" for k
    unfolding ds_def
  proof (rule sorted_diff_after_sort)
    show "n \<le> length mem" using len1 by (simp add: n_def mem_def)
    show "\<forall>r\<in>set (take n mem). unat (diff r) < 2 ^ 31"
      using small by (simp add: recorded_def n_def mem_def)
    show "interruptions t1 = mem" by (simp add: t1_def t0_def mem_def)
    show "sorted_p t1 = qsort (qsort_cmp_interruption mem) [0..<n] @ drop n (sorted_p t)"
      by (simp add: t1_def)
    show "k < n" by (rule that)
  qed
  have pos: "0 < n" using n0 by (simp add: n_def)
  have n31': "n < 2 ^ 31" using n31 by (simp add: n_def)
  note idx = rank_indices [OF pos]
  have r0: "sorted_diff t1 0 = Inr (ds ! 0)" using pos by (rule rd)
  have r1: "sorted_diff t1 (n - 1) = Inr (ds ! (n - 1))" using idx(1) by (rule rd)
  have r2: "sorted_diff t1 (n div 2) = Inr (ds ! (n div 2))" using idx(2) by (rule rd)
  have r3: "sorted_diff t1 (pct_index n 8106479329266893 53) = Inr (ds ! (n * 9 div 10))"
    using rd [OF idx(3)] by (simp only: pct_index_90 [OF n31'])
  have r4: "sorted_diff t1 (pct_index n 4458563631096791 52) = Inr (ds ! (n * 99 div 100))"
    using rd [OF idx(4)] by (simp only: pct_index_99 [OF n31'])
  have r5: "sorted_diff t1 (pct_index n 8998192055486251 53) = Inr (ds ! (n * 999 div 1000))"
    using rd [OF idx(5)] by (simp only: pct_index_999 [OF n31'])
  have r6: "sorted_diff t1 (pct_index n 4503149267407759 52) = Inr (ds ! (n * 9999 div 10000))"
    using rd [OF idx(6)] by (simp only: pct_index_9999 [OF n31'])
  have r7: "sorted_diff t1 (pct_index n 9007109182748445 53) = Inr (ds ! (n * 99999 div 100000))"
    using rd [OF idx(7)] by (simp only: pct_index_99999 [OF n31'])
  have sm: "sum_diffs t1 = Inr (foldl (\<lambda>sum r. sum + diff r) 0 (take n mem))"
    using len1 by (simp add: sum_diffs_def t1_def t0_def n_def mem_def)
  define t' where "t' = t1\<lparr>int_min := ds ! 0, int_max := ds ! (n - 1),
      int_median := ds ! (n div 2), int_90 := ds ! (n * 9 div 10),
      int_99 := ds ! (n * 99 div 100), int_999 := ds ! (n * 999 div 1000),
      int_9999 := ds ! (n * 9999 div 10000), int_99999 := ds ! (n * 99999 div 100000),
      int_mean := foldl (\<lambda>sum r. sum + diff r) 0 (take n mem) div ucast (int_n t1)\<rparr>"
  have r1': "sorted_diff t1 (n - Suc 0) = Inr (ds ! (n - 1))" using r1 by simp
  have i0: "int_n t0 = word_of_nat n" by (simp add: t0_def)
  have run: "thread_calc_stats t = Inr t'"
    unfolding thread_calc_stats_def Let_def n_def [symmetric] t0_def [symmetric] i0 un
    using nz by (simp add: srt r0 r1' r2 r3 r4 r5 r6 r7 sm ebind_def t'_def)
  have recs: "recorded t = take n mem" by (simp add: recorded_def n_def mem_def)
  have lrec: "length (recorded t) = n" using len1 by (simp add: recs n_def mem_def)
  have "int_min t' = sort (map diff (recorded t)) ! 0 \<and>
      int_max t' = sort (map diff (recorded t)) ! (c_interruption t - 1) \<and>
      int_median t' = nearest_rank 1 2 (recorded t) \<and>
      int_90 t' = nearest_rank 9 10 (recorded t) \<and>
      int_99 t' = nearest_rank 99 100 (recorded t) \<and>
      int_999 t' = nearest_rank 999 1000 (recorded t) \<and>
      int_9999 t' = nearest_rank 9999 10000 (recorded t) \<and>
      int_99999 t' = nearest_rank 99999 100000 (recorded t)"
    by (simp add: t'_def nearest_rank_def lrec) (simp add: recs ds_def n_def)
  with run show ?thesis by blast
qed


text \<open>For such a buffer the statistics are in the order C4 claims for every buffer.\<close>

lemma thread_calc_stats_monotone_small_gaps:
  assumes n0: "0 < c_interruption t" and n31: "c_interruption t < 2 ^ 31"
    and len1: "c_interruption t \<le> length (interruptions t)"
    and len2: "c_interruption t \<le> length (sorted_p t)"
    and small: "\<forall>r\<in>set (recorded t). unat (diff r) < 2 ^ 31"
  shows "\<exists>t'. thread_calc_stats t = Inr t' \<and>
      int_min t' \<le> int_median t' \<and> int_median t' \<le> int_90 t' \<and>
      int_90 t' \<le> int_99 t' \<and> int_99 t' \<le> int_999 t' \<and> int_999 t' \<le> int_9999 t' \<and>
      int_9999 t' \<le> int_99999 t' \<and> int_99999 t' \<le> int_max t'"
proof -
  define n where "n = c_interruption t"
  define ds where "ds = sort (map diff (recorded t))"
  have len: "length ds = n" using len1 by (simp add: ds_def recorded_def n_def)
  have lrec: "length (recorded t) = n" using len1 by (simp add: recorded_def n_def)
  have pos: "0 < n" using n0 by (simp add: n_def)
  have srt: "sorted ds" by (simp add: ds_def)
  from thread_calc_stats_small_gaps [OF assms] obtain t' where run: "thread_calc_stats t = Inr t'"
    and v: "int_min t' = ds ! 0" "int_max t' = ds ! (n - 1)"
      "int_median t' = ds ! (n * 1 div 2)" "int_90 t' = ds ! (n * 9 div 10)"
      "int_99 t' = ds ! (n * 99 div 100)" "int_999 t' = ds ! (n * 999 div 1000)"
      "int_9999 t' = ds ! (n * 9999 div 10000)" "int_99999 t' = ds ! (n * 99999 div 100000)"
    unfolding nearest_rank_def ds_def lrec n_def by blast
  note below = rank_indices [OF pos]
  note order = rank_order [of n]
  have top: "n * 99999 div 100000 \<le> n - 1" using below(7) by simp
  have step: "ds ! i \<le> ds ! j" if "i \<le> j" "j < n" for i j
    using srt that len by (simp add: sorted_nth_mono)
  have "ds ! 0 \<le> ds ! (n * 1 div 2)" using below(2) by (intro step) simp_all
  moreover have "ds ! (n * 1 div 2) \<le> ds ! (n * 9 div 10)" using order(1) below(3) by (rule step)
  moreover have "ds ! (n * 9 div 10) \<le> ds ! (n * 99 div 100)" using order(2) below(4) by (rule step)
  moreover have "ds ! (n * 99 div 100) \<le> ds ! (n * 999 div 1000)"
    using order(3) below(5) by (rule step)
  moreover have "ds ! (n * 999 div 1000) \<le> ds ! (n * 9999 div 10000)"
    using order(4) below(6) by (rule step)
  moreover have "ds ! (n * 9999 div 10000) \<le> ds ! (n * 99999 div 100000)"
    using order(5) below(7) by (rule step)
  moreover have "ds ! (n * 99999 div 100000) \<le> ds ! (n - 1)" using top below(1) by (rule step)
  ultimately show ?thesis using run by (simp only: v [symmetric]) blast
qed

text \<open>
  Whatever the gaps, \<^verbatim>\<open>thread_calc_stats\<close> returns on a thread whose cursor lies within
  both of its arrays and below \<open>2 ^ 31\<close>: every index it computes is below the count.
\<close>

lemma sorted_diff_within:
  assumes len1: "n \<le> length (interruptions t1)"
    and sp: "sorted_p t1 = qsort cmp [0..<n] @ rest"
    and k: "k < n"
  shows "\<exists>v. sorted_diff t1 k = Inr v"
proof -
  let ?qs = "qsort cmp [0..<n]"
  have lq: "length ?qs = n" by (simp add: length_qsort)
  have "?qs ! k \<in> set ?qs" using k lq by simp
  then have inb: "?qs ! k < n" by (simp add: set_qsort)
  have nth: "sorted_p t1 ! k = ?qs ! k" using k lq by (simp add: sp nth_append)
  have "k < length (sorted_p t1)" using k lq by (simp add: sp)
  then show ?thesis using inb len1 by (simp add: sorted_diff_def nth)
qed

lemma thread_calc_stats_returns:
  assumes n31: "c_interruption t < 2 ^ 31"
    and len1: "c_interruption t \<le> length (interruptions t)"
    and len2: "c_interruption t \<le> length (sorted_p t)"
  shows "\<exists>t'. thread_calc_stats t = Inr t'"
proof (cases "(word_of_nat (c_interruption t) :: 32 word) = 0")
  case True
  then show ?thesis by (simp add: thread_calc_stats_def)
next
  case False
  define n where "n = c_interruption t"
  define t0 where "t0 = t\<lparr>runtime := frc_stop t - frc_start t, int_n := word_of_nat n\<rparr>"
  define t1 where "t1 = t0\<lparr>sorted_p := qsort (qsort_cmp_interruption (interruptions t)) [0..<n]
                        @ drop n (sorted_p t)\<rparr>"
  have un: "unat (word_of_nat n :: 32 word) = n"
    using n31 by (intro unat_of_nat_32) (simp add: n_def)
  have pos: "0 < n"
  proof (rule ccontr)
    assume "\<not> 0 < n"
    then have "(word_of_nat n :: 32 word) = 0" by simp
    with False show False by (simp add: n_def)
  qed
  have srt: "sort_interruptions t0 = Inr t1"
    using sort_interruptions_small [of t0] n31 len1 len2
    by (simp add: t0_def t1_def n_def)
  have rd: "\<exists>v. sorted_diff t1 k = Inr v" if "k < n" for k
  proof (rule sorted_diff_within)
    show "n \<le> length (interruptions t1)" using len1 by (simp add: t1_def t0_def n_def)
    show "sorted_p t1 = qsort (qsort_cmp_interruption (interruptions t)) [0..<n]
        @ drop n (sorted_p t)"
      by (simp add: t1_def)
    show "k < n" by (rule that)
  qed
  have n31': "n < 2 ^ 31" using n31 by (simp add: n_def)
  note idx = rank_indices [OF pos]
  from rd [OF pos] obtain v0 where r0: "sorted_diff t1 0 = Inr v0" ..
  from rd [OF idx(1)] obtain v1 where r1: "sorted_diff t1 (n - Suc 0) = Inr v1" by auto
  from rd [OF idx(2)] obtain v2 where r2: "sorted_diff t1 (n div 2) = Inr v2" ..
  from rd [OF idx(3)] obtain v3 where
    r3: "sorted_diff t1 (pct_index n 8106479329266893 53) = Inr v3"
    unfolding pct_index_90 [OF n31'] ..
  from rd [OF idx(4)] obtain v4 where
    r4: "sorted_diff t1 (pct_index n 4458563631096791 52) = Inr v4"
    unfolding pct_index_99 [OF n31'] ..
  from rd [OF idx(5)] obtain v5 where
    r5: "sorted_diff t1 (pct_index n 8998192055486251 53) = Inr v5"
    unfolding pct_index_999 [OF n31'] ..
  from rd [OF idx(6)] obtain v6 where
    r6: "sorted_diff t1 (pct_index n 4503149267407759 52) = Inr v6"
    unfolding pct_index_9999 [OF n31'] ..
  from rd [OF idx(7)] obtain v7 where
    r7: "sorted_diff t1 (pct_index n 9007109182748445 53) = Inr v7"
    unfolding pct_index_99999 [OF n31'] ..
  have sm: "\<exists>s. sum_diffs t1 = Inr s"
    using len1 by (simp add: sum_diffs_def t1_def t0_def n_def)
  then obtain s where sm: "sum_diffs t1 = Inr s" ..
  have i0: "int_n t0 = word_of_nat n" by (simp add: t0_def)
  have nz: "(word_of_nat n :: 32 word) \<noteq> 0" using False by (simp add: n_def)
  show ?thesis
    unfolding thread_calc_stats_def Let_def n_def [symmetric] t0_def [symmetric] i0 un
    using nz by (simp add: srt r0 r1 r2 r3 r4 r5 r6 r7 sm ebind_def)
qed

section \<open>The statistics of two concrete runs\<close>

lemma pct_index_two:
  "pct_index 2 8106479329266893 53 = 1" "pct_index 2 4458563631096791 52 = 1"
  "pct_index 2 8998192055486251 53 = 1" "pct_index 2 4503149267407759 52 = 1"
  "pct_index 2 9007109182748445 53 = 1"
  by (simp_all add: pct_index_def round53_def bitlen.simps)

lemma upt_two: "[0..<2] = [0, Suc 0]"
  by (simp add: numeral_2_eq_2)

lemma calc_sampled: "thread_calc_stats sampled_thread = Inr summarised_thread"
  by (simp add: upt_two thread_calc_stats_def sort_interruptions_def unsort_interruptions_def
      sorted_diff_def sum_diffs_def ebind_def qsort_def qsort_cmp_interruption_def
      pct_index_two summarised_thread_def sampled_thread_def armed_thread_def zero_thread_def)

lemma doit_stall: "doit g_four 0 obs_stall armed_thread 900 = Inr stalled_thread"
  by (simp add: doit_def g_four_def obs_stall_def armed_thread_def stalled_thread_def
      zero_thread_def)

lemma calc_stalled: "thread_calc_stats stalled_thread = Inr stalled_stats"
  by (simp add: upt_two thread_calc_stats_def sort_interruptions_def unsort_interruptions_def
      sorted_diff_def sum_diffs_def ebind_def qsort_def qsort_cmp_interruption_def
      pct_index_two stalled_stats_def stalled_thread_def armed_thread_def zero_thread_def)

text \<open>
  On the records of the held-up run the comparison function is consistent, and puts the
  record with the gap of 2147484649 cycles before the record with the gap of 1000: the
  difference \<open>2147483649\<close> has bit 31 set and is negative as an \<^verbatim>\<open>int\<close>. Any sorting
  routine that follows the comparison function leaves the pointers in this order.
\<close>

lemma stalled_comparison:
  "0 < qsort_cmp_interruption (interruptions stalled_thread) 0 1 \<and>
   qsort_cmp_interruption (interruptions stalled_thread) 1 0 < 0"
  by (simp add: qsort_cmp_interruption_def stalled_thread_def)

text \<open>
  C4. The claim is that \<open>min \<le> median \<le> p90 \<le> \<dots> \<le> max\<close> for any gaps. For the
  held-up run the program reports a minimum of 2147484649 cycles and a median and a
  maximum of 1000 cycles: the minimum exceeds both.
\<close>

theorem stats_not_monotone_after_stall:
  "doit g_four 0 obs_stall armed_thread 900 = Inr stalled_thread \<and>
   thread_calc_stats stalled_thread = Inr stalled_stats \<and>
   int_min stalled_stats = 2147484649 \<and> int_median stalled_stats = 1000 \<and>
   int_max stalled_stats = 1000 \<and>
   \<not> int_min stalled_stats \<le> int_median stalled_stats \<and>
   \<not> int_min stalled_stats \<le> int_max stalled_stats"
  using doit_stall calc_stalled by (simp add: stalled_stats_def)

text \<open>
  C3. The claim is that each percentile is the gap at index \<open>floor (n * p)\<close> of the
  records in ascending order of gap. For the two records of the held-up run that index is
  1 for the median and for the 90th percentile, and the gap there is 2147484649 cycles;
  the program reports 1000 cycles for both.
\<close>

theorem median_not_nearest_rank_after_stall:
  "thread_calc_stats stalled_thread = Inr stalled_stats \<and>
   length (recorded stalled_thread) = 2 \<and>
   int_median stalled_stats = 1000 \<and>
   nearest_rank 1 2 (recorded stalled_thread) = 2147484649 \<and>
   int_90 stalled_stats = 1000 \<and>
   nearest_rank 9 10 (recorded stalled_thread) = 2147484649"
  using calc_stalled
  by (simp add: stalled_stats_def nearest_rank_def recorded_def stalled_thread_def)

theorem thread_calc_stats_empty_witness:
  "c_interruption armed_thread = 0 \<and>
   (\<exists>t'. thread_calc_stats armed_thread = Inr t' \<and> int_n t' = 0 \<and> int_min t' = 0 \<and>
      int_max t' = 0 \<and> int_mean t' = 0 \<and> int_median t' = 0 \<and> int_90 t' = 0 \<and>
      int_99 t' = 0 \<and> int_999 t' = 0 \<and> int_9999 t' = 0 \<and> int_99999 t' = 0)"
proof -
  have empty: "c_interruption armed_thread = 0"
    by (simp add: armed_thread_def zero_thread_def)
  from thread_calc_stats_empty [OF empty] empty show ?thesis by blast
qed

theorem thread_calc_stats_keeps_raw_data_witness:
  "thread_calc_stats sampled_thread = Inr summarised_thread \<and>
   interruptions summarised_thread = interruptions sampled_thread \<and>
   c_interruption summarised_thread = c_interruption sampled_thread \<and>
   int_total summarised_thread = int_total sampled_thread \<and>
   frc_start summarised_thread = frc_start sampled_thread \<and>
   frc_stop summarised_thread = frc_stop sampled_thread \<and>
   cpu_mhz summarised_thread = cpu_mhz sampled_thread \<and>
   core_i summarised_thread = core_i sampled_thread \<and>
   thread_calc_stats summarised_thread = Inr summarised_thread"
  using thread_calc_stats_keeps_raw_data [OF calc_sampled] calc_sampled by blast

section \<open>The order of events in a thread\<close>

lemma precedes_Nil [simp]: "precedes a b []"
  by (simp add: precedes_def)

lemma precedes_Cons [simp]: "precedes a b (x # xs) \<longleftrightarrow> x = a \<or> (x \<noteq> b \<and> precedes a b xs)"
proof (cases "x = a")
  case True
  then show ?thesis by (simp add: precedes_def)
next
  case False
  then show ?thesis by (auto simp: precedes_def)
qed

lemma precedes_skip:
  assumes "a \<notin> set us" and "b \<notin> set us"
  shows "precedes a b (us @ xs) = precedes a b xs"
  using assms by (induction us) auto

lemma wait_loop_events: "wait_loop cs = (evs, r) \<Longrightarrow> set evs \<subseteq> {E_usleep}"
proof (induction cs arbitrary: evs r)
  case Nil
  then show ?case by simp
next
  case (Cons c cs)
  then show ?case by (auto split: if_splits prod.splits)
qed

lemma barrier_loop_events: "barrier_loop n cs = (evs, r) \<Longrightarrow> set evs \<subseteq> {E_relax}"
proof (induction cs arbitrary: evs r)
  case Nil
  then show ?case by simp
next
  case (Cons c cs)
  then show ?case by (auto split: if_splits prod.splits)
qed

lemma wait_loop_left:
  "wait_loop cs = (evs, Inr u) \<Longrightarrow> \<exists>c\<in>set cs. c \<noteq> WAIT"
proof (induction cs arbitrary: evs)
  case Nil
  then show ?case by simp
next
  case (Cons c cs)
  then show ?case by (auto split: if_splits prod.splits)
qed

lemma precedes_past_usleep:
  assumes "wait_loop cs = (us, r)" and "a \<noteq> E_usleep" and "b \<noteq> E_usleep"
  shows "precedes a b (us @ xs) = precedes a b xs"
  using wait_loop_events [OF assms(1)] assms(2,3) by (intro precedes_skip) auto

lemma precedes_past_relax:
  assumes "barrier_loop n cs = (rs, r)" and "a \<noteq> E_relax" and "b \<noteq> E_relax"
  shows "precedes a b (rs @ xs) = precedes a b xs"
  using barrier_loop_events [OF assms(1)] assms(2,3) by (intro precedes_skip) auto

lemma precedes_past_usleep_end:
  assumes "wait_loop cs = (us, r)" and "a \<noteq> E_usleep" and "b \<noteq> E_usleep"
  shows "precedes a b us"
  using precedes_past_usleep [OF assms, of "[]"] by simp

lemma precedes_past_relax_end:
  assumes "barrier_loop n cs = (rs, r)" and "a \<noteq> E_relax" and "b \<noteq> E_relax"
  shows "precedes a b rs"
  using precedes_past_relax [OF assms, of "[]"] by simp

text \<open>
  Whatever a thread meets, and however far it gets, its events are an initial part of
  the sequence move, init, started, sleeps, measure, running, relaxes, start, doit, stop,
  finished, relaxes; so an order that holds in that sequence holds in every run.
\<close>

lemma thread_main_order_aux:
  assumes "a \<noteq> E_usleep" "b \<noteq> E_usleep" "a \<noteq> E_relax" "b \<noteq> E_relax"
    and "precedes a b [E_move_to_core (core_i t), E_thread_init, E_inc_started,
           E_measure_cpu_mhz, E_inc_running, E_frc_start, E_doit, E_frc_stop, E_inc_finished]"
    and "a \<noteq> b"
  shows "precedes a b (fst (thread_main g env t))"
  using assms
  by (auto simp: thread_main_def then_do_def precedes_past_usleep precedes_past_relax
      precedes_past_usleep_end precedes_past_relax_end
      split: prod.splits sum.splits if_splits)


lemma thread_main_calibrates_after_wait:
  assumes "E_measure_cpu_mhz \<in> set (fst (thread_main g env t))"
  shows "\<exists>c\<in>set (wait_polls env). c \<noteq> WAIT"
proof (rule ccontr)
  assume "\<not> (\<exists>c\<in>set (wait_polls env). c \<noteq> WAIT)"
  then have stuck: "\<And>evs u. wait_loop (wait_polls env) \<noteq> (evs, Inr u)"
    using wait_loop_left by blast
  obtain us r where w: "wait_loop (wait_polls env) = (us, r)" by (cases "wait_loop (wait_polls env)")
  with stuck obtain e where r: "r = Inl e" by (cases r) auto
  have "E_measure_cpu_mhz \<notin> set us" using wait_loop_events [OF w] by auto
  then have "E_measure_cpu_mhz \<notin> set (fst (thread_main g env t))"
    using w r by (auto simp: thread_main_def then_do_def split: prod.splits sum.splits if_splits)
  with assms show False by simp
qed

text \<open>
  The sleeps and the relaxes of a run: one sleep for every read of \<^verbatim>\<open>WAIT\<close> before the
  first other command, one relax for every read of the counter before the first that
  equals the number of threads; and a loop is left only on such a read.
\<close>

lemma wait_loop_sleeps:
  "wait_loop cs = (us, r) \<Longrightarrow> us = replicate (length (takeWhile (\<lambda>c. c = WAIT) cs)) E_usleep"
proof (induction cs arbitrary: us r)
  case Nil
  then show ?case by simp
next
  case (Cons c cs)
  then show ?case by (auto split: if_splits prod.splits)
qed

lemma barrier_loop_relaxes:
  "barrier_loop n cs = (rs, r) \<Longrightarrow> rs = replicate (length (takeWhile (\<lambda>c. c \<noteq> n) cs)) E_relax"
proof (induction cs arbitrary: rs r)
  case Nil
  then show ?case by simp
next
  case (Cons c cs)
  then show ?case by (auto split: if_splits prod.splits)
qed

lemma barrier_loop_left:
  "barrier_loop n cs = (evs, Inr u) \<Longrightarrow> \<exists>c\<in>set cs. c = n"
proof (induction cs arbitrary: evs)
  case Nil
  then show ?case by simp
next
  case (Cons c cs)
  then show ?case by (auto split: if_splits prod.splits)
qed

lemma precedes_absent: "b \<notin> set us \<Longrightarrow> precedes a b us"
  by (auto simp: precedes_def dest: set_takeWhileD)

text \<open>
  A thread that has incremented the started counter has done so third, and then slept
  once for every read of \<^verbatim>\<open>WAIT\<close>, and nowhere else; what follows the sleeps, if anything,
  begins with the calibration.
\<close>

lemma thread_main_sleeps_while_wait:
  assumes "E_inc_started \<in> set (fst (thread_main g env t))"
  shows "\<exists>rest. fst (thread_main g env t) =
           [E_move_to_core (core_i t), E_thread_init, E_inc_started] @
           replicate (length (takeWhile (\<lambda>c. c = WAIT) (wait_polls env))) E_usleep @ rest \<and>
           E_usleep \<notin> set rest \<and> (rest = [] \<or> hd rest = E_measure_cpu_mhz)"
proof -
  obtain us r where w: "wait_loop (wait_polls env) = (us, r)"
    by (cases "wait_loop (wait_polls env)")
  note s = wait_loop_sleeps [OF w]
  obtain rs r' where b: "barrier_loop (n_threads g) (running_polls env) = (rs, r')"
    by (cases "barrier_loop (n_threads g) (running_polls env)")
  obtain fs r'' where f: "barrier_loop (n_threads g) (finished_polls env) = (fs, r'')"
    by (cases "barrier_loop (n_threads g) (finished_polls env)")
  have "E_usleep \<notin> set rs" "E_usleep \<notin> set fs"
    using barrier_loop_events [OF b] barrier_loop_events [OF f] by auto
  with assms w s b f show ?thesis
    by (auto simp: thread_main_def then_do_def split: prod.splits sum.splits if_splits)
qed

lemma thread_main_calibrates_after_sleeps:
  assumes "E_measure_cpu_mhz \<in> set (fst (thread_main g env t))"
  shows "\<exists>rest. fst (thread_main g env t) =
           [E_move_to_core (core_i t), E_thread_init, E_inc_started] @
           replicate (length (takeWhile (\<lambda>c. c = WAIT) (wait_polls env))) E_usleep @
           E_measure_cpu_mhz # rest"
proof -
  obtain us r where w: "wait_loop (wait_polls env) = (us, r)"
    by (cases "wait_loop (wait_polls env)")
  note s = wait_loop_sleeps [OF w]
  have "E_measure_cpu_mhz \<notin> set us" using wait_loop_events [OF w] by auto
  with assms w s show ?thesis
    by (auto simp: thread_main_def then_do_def split: prod.splits sum.splits if_splits)
qed

text \<open>
  A thread that samples has read the running counter equal to the number of threads, and
  has relaxed once for every earlier read of it, between its own increment of that
  counter and the reading of the start stamp.
\<close>

lemma thread_main_samples_after_barrier:
  assumes "E_doit \<in> set (fst (thread_main g env t))"
  shows "(\<exists>c\<in>set (running_polls env). c = n_threads g) \<and>
         (\<exists>rest. fst (thread_main g env t) =
           [E_move_to_core (core_i t), E_thread_init, E_inc_started] @
           replicate (length (takeWhile (\<lambda>c. c = WAIT) (wait_polls env))) E_usleep @
           [E_measure_cpu_mhz, E_inc_running] @
           replicate (length (takeWhile (\<lambda>c. c \<noteq> n_threads g) (running_polls env))) E_relax @
           E_frc_start # E_doit # rest)"
proof -
  obtain us r where w: "wait_loop (wait_polls env) = (us, r)"
    by (cases "wait_loop (wait_polls env)")
  note s = wait_loop_sleeps [OF w]
  obtain rs r' where b: "barrier_loop (n_threads g) (running_polls env) = (rs, r')"
    by (cases "barrier_loop (n_threads g) (running_polls env)")
  note s' = barrier_loop_relaxes [OF b]
  have no: "E_doit \<notin> set us" "E_doit \<notin> set rs"
    using wait_loop_events [OF w] barrier_loop_events [OF b] by auto
  have left: "\<And>u. r' = Inr u \<Longrightarrow> \<exists>c\<in>set (running_polls env). c = n_threads g"
    using b barrier_loop_left by blast
  from assms w s b s' no left show ?thesis
    by (auto simp: thread_main_def then_do_def split: prod.splits sum.splits if_splits)
qed

lemma thread_main_sleeps_after_started:
  "precedes E_inc_started E_usleep (fst (thread_main g env t))"
  by (auto simp: thread_main_def then_do_def split: prod.splits sum.splits if_splits)

lemma thread_main_relaxes_after_running:
  "precedes E_inc_running E_relax (fst (thread_main g env t))"
proof -
  obtain us r where w: "wait_loop (wait_polls env) = (us, r)"
    by (cases "wait_loop (wait_polls env)")
  have "E_relax \<notin> set us" "E_inc_running \<notin> set us" using wait_loop_events [OF w] by auto
  with w show ?thesis
    by (auto simp: thread_main_def then_do_def precedes_skip precedes_absent
        split: prod.splits sum.splits if_splits)
qed

text \<open>
  C8, as the code has it. In every run of \<^verbatim>\<open>thread_main\<close>, complete or not, the thread
  pins itself to its core before it allocates its buffers and allocates before it
  increments the started counter. It sleeps only after that increment: once it has made
  it, its events are the pinning, the allocation, the increment, one sleep for every read
  of \<^verbatim>\<open>WAIT\<close> before the first other command, and then, if anything, the calibration. It
  calibrates only after it has read a command other than \<^verbatim>\<open>WAIT\<close>, directly after those
  sleeps, and before it increments the running counter. It relaxes only after that
  increment, and it samples only after it has read the running counter equal to the
  number of threads: its events up to the sampling are then those above, the
  calibration, the increment of the running counter, one relax for every read of that
  counter before the first that equals the number of threads, the reading of the start
  stamp and the sampling. So the calibration follows the increment of the started counter
  and the sleep-polling, and precedes the increment of the running counter and the
  busy-wait before sampling.
\<close>

theorem thread_main_startup_order:
  "precedes (E_move_to_core (core_i t)) E_thread_init (fst (thread_main g env t)) \<and>
   precedes E_thread_init E_inc_started (fst (thread_main g env t)) \<and>
   precedes E_inc_started E_usleep (fst (thread_main g env t)) \<and>
   (E_inc_started \<in> set (fst (thread_main g env t)) \<longrightarrow>
      (\<exists>rest. fst (thread_main g env t) =
         [E_move_to_core (core_i t), E_thread_init, E_inc_started] @
         replicate (length (takeWhile (\<lambda>c. c = WAIT) (wait_polls env))) E_usleep @ rest \<and>
         E_usleep \<notin> set rest \<and> (rest = [] \<or> hd rest = E_measure_cpu_mhz))) \<and>
   precedes E_inc_started E_measure_cpu_mhz (fst (thread_main g env t)) \<and>
   (E_measure_cpu_mhz \<in> set (fst (thread_main g env t)) \<longrightarrow>
      (\<exists>c\<in>set (wait_polls env). c \<noteq> WAIT) \<and>
      (\<exists>rest. fst (thread_main g env t) =
         [E_move_to_core (core_i t), E_thread_init, E_inc_started] @
         replicate (length (takeWhile (\<lambda>c. c = WAIT) (wait_polls env))) E_usleep @
         E_measure_cpu_mhz # rest)) \<and>
   precedes E_measure_cpu_mhz E_inc_running (fst (thread_main g env t)) \<and>
   precedes E_inc_running E_relax (fst (thread_main g env t)) \<and>
   precedes E_inc_running E_doit (fst (thread_main g env t)) \<and>
   (E_doit \<in> set (fst (thread_main g env t)) \<longrightarrow>
      (\<exists>c\<in>set (running_polls env). c = n_threads g) \<and>
      (\<exists>rest. fst (thread_main g env t) =
         [E_move_to_core (core_i t), E_thread_init, E_inc_started] @
         replicate (length (takeWhile (\<lambda>c. c = WAIT) (wait_polls env))) E_usleep @
         [E_measure_cpu_mhz, E_inc_running] @
         replicate (length (takeWhile (\<lambda>c. c \<noteq> n_threads g) (running_polls env))) E_relax @
         E_frc_start # E_doit # rest))"
  using thread_main_calibrates_after_wait [of g env t]
    thread_main_sleeps_while_wait [of g env t]
    thread_main_calibrates_after_sleeps [of g env t]
    thread_main_samples_after_barrier [of g env t]
    thread_main_sleeps_after_started [of g env t]
    thread_main_relaxes_after_running [of g env t]
  by (simp add: thread_main_order_aux)

lemma thread_main_plain:
  "fst (thread_main g_pair env_plain zero_thread) =
     [E_move_to_core 0, E_thread_init, E_inc_started, E_usleep, E_usleep, E_measure_cpu_mhz,
      E_inc_running, E_relax, E_frc_start, E_doit, E_frc_stop, E_inc_finished]"
  by (simp add: thread_main_def then_do_def thread_init_def doit_def env_plain_def g_pair_def
      g_four_def zero_thread_def obs_quiet_def)

theorem thread_main_startup_order_witness:
  "E_inc_started \<in> set (fst (thread_main g_pair env_plain zero_thread)) \<and>
   E_measure_cpu_mhz \<in> set (fst (thread_main g_pair env_plain zero_thread)) \<and>
   E_inc_running \<in> set (fst (thread_main g_pair env_plain zero_thread)) \<and>
   E_doit \<in> set (fst (thread_main g_pair env_plain zero_thread)) \<and>
   length (takeWhile (\<lambda>c. c = WAIT) (wait_polls env_plain)) = 2 \<and>
   length (takeWhile (\<lambda>c. c \<noteq> n_threads g_pair) (running_polls env_plain)) = 1 \<and>
   precedes (E_move_to_core (core_i zero_thread)) E_thread_init
     (fst (thread_main g_pair env_plain zero_thread)) \<and>
   precedes E_thread_init E_inc_started (fst (thread_main g_pair env_plain zero_thread)) \<and>
   precedes E_inc_started E_usleep (fst (thread_main g_pair env_plain zero_thread)) \<and>
   (\<exists>rest. fst (thread_main g_pair env_plain zero_thread) =
      [E_move_to_core (core_i zero_thread), E_thread_init, E_inc_started] @
      replicate (length (takeWhile (\<lambda>c. c = WAIT) (wait_polls env_plain))) E_usleep @ rest \<and>
      E_usleep \<notin> set rest \<and> (rest = [] \<or> hd rest = E_measure_cpu_mhz)) \<and>
   precedes E_inc_started E_measure_cpu_mhz (fst (thread_main g_pair env_plain zero_thread)) \<and>
   (\<exists>c\<in>set (wait_polls env_plain). c \<noteq> WAIT) \<and>
   (\<exists>rest. fst (thread_main g_pair env_plain zero_thread) =
      [E_move_to_core (core_i zero_thread), E_thread_init, E_inc_started] @
      replicate (length (takeWhile (\<lambda>c. c = WAIT) (wait_polls env_plain))) E_usleep @
      E_measure_cpu_mhz # rest) \<and>
   precedes E_measure_cpu_mhz E_inc_running (fst (thread_main g_pair env_plain zero_thread)) \<and>
   precedes E_inc_running E_relax (fst (thread_main g_pair env_plain zero_thread)) \<and>
   precedes E_inc_running E_doit (fst (thread_main g_pair env_plain zero_thread)) \<and>
   (\<exists>c\<in>set (running_polls env_plain). c = n_threads g_pair) \<and>
   (\<exists>rest. fst (thread_main g_pair env_plain zero_thread) =
      [E_move_to_core (core_i zero_thread), E_thread_init, E_inc_started] @
      replicate (length (takeWhile (\<lambda>c. c = WAIT) (wait_polls env_plain))) E_usleep @
      [E_measure_cpu_mhz, E_inc_running] @
      replicate (length (takeWhile (\<lambda>c. c \<noteq> n_threads g_pair) (running_polls env_plain)))
        E_relax @
      E_frc_start # E_doit # rest)"
proof -
  have occ: "E_inc_started \<in> set (fst (thread_main g_pair env_plain zero_thread))"
    "E_measure_cpu_mhz \<in> set (fst (thread_main g_pair env_plain zero_thread))"
    "E_inc_running \<in> set (fst (thread_main g_pair env_plain zero_thread))"
    "E_doit \<in> set (fst (thread_main g_pair env_plain zero_thread))"
    by (simp_all add: thread_main_plain)
  have reads: "length (takeWhile (\<lambda>c. c = WAIT) (wait_polls env_plain)) = 2"
    "length (takeWhile (\<lambda>c. c \<noteq> n_threads g_pair) (running_polls env_plain)) = 1"
    by (simp_all add: env_plain_def g_pair_def g_four_def)
  from thread_main_startup_order [of zero_thread g_pair env_plain] occ reads
  show ?thesis by blast
qed

text \<open>
  C8, as claimed: calibration before the increment of the started counter. In the
  undisturbed start the started counter is incremented third and the frequency measured
  sixth, after two sleeps.
\<close>

theorem thread_main_calibrates_before_started_counterexample:
  "fst (thread_main g_pair env_plain zero_thread) =
     [E_move_to_core 0, E_thread_init, E_inc_started, E_usleep, E_usleep, E_measure_cpu_mhz,
      E_inc_running, E_relax, E_frc_start, E_doit, E_frc_stop, E_inc_finished] \<and>
   \<not> precedes E_measure_cpu_mhz E_inc_started (fst (thread_main g_pair env_plain zero_thread))"
  by (simp add: thread_main_plain)

section \<open>The capacity of the buffer\<close>

text \<open>
  C2, at a capacity of 0. The claim is that the count of records never exceeds the
  capacity because the loop stops as soon as the buffer is full. With
  \<^verbatim>\<open>g.max_interruptions = 0\<close> \<^verbatim>\<open>thread_init\<close> gives the thread an array without slots, the
  buffer is full from the start, and the first pass through the loop stores a record
  into slot 0, which the array does not have (the test \<^verbatim>\<open>i == i_end\<close> comes only after
  the cursor has moved, and by then the cursor is past the end).
\<close>

theorem doit_overruns_buffer_without_capacity:
  "thread_init g_none True (\<lambda>_. 0) zero_thread = Inr zero_thread \<and>
   doit g_none 20 obs_quiet zero_thread 900 = Inl (OutOfBounds 0)"
  by (simp add: thread_init_def doit_def g_none_def g_four_def zero_thread_def obs_quiet_def)

text \<open>
  With room for at least one record the claim holds: the loop never writes outside the
  array, and the count it leaves is at most the capacity. \<^verbatim>\<open>thread_init\<close> provides that
  room for capacities from 1 to \<open>2 ^ 27 - 1\<close>.
\<close>

lemma doit_within_capacity:
  assumes "0 < unat (max_interruptions g)"
    and "unat (max_interruptions g) \<le> length (interruptions t)"
  shows "doit g first obs t thr \<noteq> Inl (OutOfBounds j) \<and>
         (\<forall>t'. doit g first obs t thr = Inr t' \<longrightarrow> c_interruption t' \<le> unat (max_interruptions g))"
  using doit_loop_in_bounds [OF assms, of thr obs first 0 j]
  by (auto simp: doit_def split: sum.splits)

lemma thread_init_room:
  assumes "thread_init g ok jnk t = Inr t1" and "unat (max_interruptions g) < 2 ^ 27"
  shows "length (interruptions t1) = unat (max_interruptions g) \<and> c_interruption t1 = 0"
proof -
  let ?n = "unat (max_interruptions g)"
  have "?n * 16 < 2 ^ 31" using assms(2) by simp
  then have "sint (word_of_nat (?n * 16) :: 32 word) = int (?n * 16)"
    by (rule sint_of_nat_32)
  with assms(1) show ?thesis
    by (auto simp: thread_init_def Let_def nat_uint_16 split: if_splits)
qed


text \<open>
  A thread that gets through \<^verbatim>\<open>thread_main\<close> under a capacity from 1 to \<open>2 ^ 27 - 1\<close>
  holds at most that many records in arrays of that many slots, and
  \<^verbatim>\<open>thread_calc_stats\<close> returns on it.
\<close>

lemma doit_keeps_length:
  assumes "doit g first obs t thr = Inr t'"
  shows "length (interruptions t') = length (interruptions t) \<and> sorted_p t' = sorted_p t"
proof -
  from assms obtain mem' i' tot' where
    run: "doit_loop (unat (max_interruptions g)) thr obs (interruptions t) 0 first 0
            = Inr (mem', i', tot')"
    and t': "t' = t\<lparr>interruptions := mem', c_interruption := i', int_total := tot'\<rparr>"
    by (auto simp: doit_def split: sum.splits)
  from doit_loop_returns [OF run le0] have "length mem' = length (interruptions t)" by blast
  then show ?thesis by (simp add: t')
qed

lemma then_do_Inr:
  "then_do r f = (evs, Inr y) \<Longrightarrow>
     \<exists>evs1 x evs2. r = (evs1, Inr x) \<and> f x = (evs2, Inr y) \<and> evs = evs1 @ evs2"
  by (auto simp: then_do_def split: prod.splits sum.splits)

lemma thread_main_within_capacity:
  assumes run: "thread_main g env t = (evs, Inr t')"
    and cap: "0 < unat (max_interruptions g)" "unat (max_interruptions g) < 2 ^ 27"
  shows "c_interruption t' \<le> unat (max_interruptions g) \<and>
         length (interruptions t') = unat (max_interruptions g) \<and>
         length (sorted_p t') = unat (max_interruptions g)"
proof -
  from run obtain t1 mhz t4 where
    init: "thread_init g (malloc_ok env) (junk env) t = Inr t1"
    and smp: "doit g (first_stamp env) (samples env)
        (t1\<lparr>cpu_mhz := mhz, frc_start := start_stamp env\<rparr>)
        (ucast (threshold_nsec g) * ucast mhz div 1000) = Inr t4"
    and t': "t' = t4\<lparr>frc_stop := stop_stamp env\<rparr>"
    unfolding thread_main_def
    by (auto dest!: then_do_Inr)
  from thread_init_room [OF init cap(2)]
  have room: "length (interruptions t1) = unat (max_interruptions g)" by simp
  have sp: "length (sorted_p t1) = unat (max_interruptions g)"
    using init by (auto simp: thread_init_def Let_def split: if_splits)
  let ?t3 = "t1\<lparr>cpu_mhz := mhz, frc_start := start_stamp env\<rparr>"
  have "unat (max_interruptions g) \<le> length (interruptions ?t3)" using room by simp
  from doit_within_capacity [OF cap(1) this] smp
  have "c_interruption t4 \<le> unat (max_interruptions g)" by blast
  moreover from doit_keeps_length [OF smp] room sp
  have "length (interruptions t4) = unat (max_interruptions g)"
    "length (sorted_p t4) = unat (max_interruptions g)" by simp_all
  ultimately show ?thesis by (simp add: t')
qed


lemma thread_main_then_stats:
  assumes run: "thread_main g env t = (evs, Inr t')"
    and cap: "0 < unat (max_interruptions g)" "unat (max_interruptions g) < 2 ^ 27"
  shows "\<exists>t''. thread_calc_stats t' = Inr t''"
proof -
  from thread_main_within_capacity [OF assms] have
    "c_interruption t' \<le> unat (max_interruptions g)"
    "length (interruptions t') = unat (max_interruptions g)"
    "length (sorted_p t') = unat (max_interruptions g)"
    by simp_all
  with cap(2) have "c_interruption t' < 2 ^ 31"
    "c_interruption t' \<le> length (interruptions t')"
    "c_interruption t' \<le> length (sorted_p t')"
    by simp_all
  then show ?thesis by (rule thread_calc_stats_returns)
qed

text \<open>
  \<^verbatim>\<open>post_test_checks\<close> ends the process with status 2 exactly when some thread's count
  equals the capacity, and before that prints one line for each such thread and no other.
\<close>

lemma some_index_iff_some_member:
  "(\<exists>i<length xs. P (xs ! i)) \<longleftrightarrow> (\<exists>x\<in>set xs. P x)"
proof
  assume "\<exists>i<length xs. P (xs ! i)"
  then obtain i where "i < length xs" "P (xs ! i)" by blast
  then have "xs ! i \<in> set xs" by simp
  with \<open>P (xs ! i)\<close> show "\<exists>x\<in>set xs. P x" by blast
next
  assume "\<exists>x\<in>set xs. P x"
  then obtain x where "x \<in> set xs" "P x" by blast
  then obtain i where "i < length xs" "xs ! i = x" by (auto simp: in_set_conv_nth)
  with \<open>P x\<close> show "\<exists>i<length xs. P (xs ! i)" by blast
qed

lemma early_nonempty:
  "filter (\<lambda>i. P (xs ! i)) [0..<length xs] \<noteq> [] \<longleftrightarrow> (\<exists>x\<in>set xs. P x)"
proof -
  have "filter (\<lambda>i. P (xs ! i)) [0..<length xs] \<noteq> [] \<longleftrightarrow> (\<exists>i<length xs. P (xs ! i))"
    by (auto simp: filter_empty_conv)
  then show ?thesis by (simp only: some_index_iff_some_member)
qed

lemma post_test_checks_outcome:
  assumes "length threads = unat (n_threads g)"
  shows "snd (post_test_checks g threads) =
           (if \<exists>t\<in>set threads. c_interruption t = unat (max_interruptions g)
            then Inl (Exit 2) else Inr ())"
proof -
  have "filter (\<lambda>i. c_interruption (threads ! i) = unat (max_interruptions g))
           [0..<length threads] \<noteq> [] \<longleftrightarrow>
        (\<exists>t\<in>set threads. c_interruption t = unat (max_interruptions g))"
    by (rule early_nonempty)
  then show ?thesis
    unfolding post_test_checks_def Let_def assms [symmetric] by simp
qed

lemma post_test_checks_messages:
  assumes "length threads = unat (n_threads g)"
  shows "Finished_early i m \<in> set (fst (post_test_checks g threads)) \<longleftrightarrow>
           i < length threads \<and> c_interruption (threads ! i) = unat (max_interruptions g) \<and>
           m = max_interruptions g"
proof (cases "filter (\<lambda>i. c_interruption (threads ! i) = unat (max_interruptions g))
           [0..<length threads] = []")
  case True
  then have none: "\<not> (i < length threads \<and> c_interruption (threads ! i) = unat (max_interruptions g))"
    by (simp add: filter_empty_conv)
  from True have "fst (post_test_checks g threads) = []"
    unfolding post_test_checks_def Let_def assms [symmetric] by simp
  with none show ?thesis by auto
next
  case False
  then have "fst (post_test_checks g threads) =
      map (\<lambda>i. Finished_early i (max_interruptions g))
        (filter (\<lambda>i. c_interruption (threads ! i) = unat (max_interruptions g))
           [0..<length threads]) @ [Increase_threshold]"
    unfolding post_test_checks_def Let_def assms [symmetric] by simp
  then show ?thesis by auto
qed




section \<open>The size of the buffer for the full run\<close>

lemma scan_threads_max:
  assumes "scan_threads ths mx = (ths', r)"
    and "\<forall>t\<in>set ths. c_interruption t < 2 ^ 30"
    and "unat mx < 2 ^ 30"
  shows "unat r = fold max (map c_interruption ths) (unat mx) \<and> unat r < 2 ^ 30"
  using assms
proof (induction ths arbitrary: mx ths' r)
  case Nil
  then show ?case by simp
next
  case (Cons t ths)
  let ?n = "word_of_nat (c_interruption t) :: 32 word"
  let ?mx = "if mx < ?n then ?n else mx"
  from Cons.prems(2) have c: "c_interruption t < 2 ^ 30" by simp
  then have n: "unat ?n = c_interruption t" by (intro unat_of_nat_32) simp
  have mx': "unat ?mx = max (c_interruption t) (unat mx)"
    using n by (simp add: word_less_nat_alt max_def)
  have small: "unat ?mx < 2 ^ 30" using mx' c Cons.prems(3) by simp
  obtain ths'' where run: "scan_threads ths ?mx = (ths'', r)"
    using Cons.prems(1) by (auto simp: Let_def split: prod.splits)
  from Cons.prems(2) have "\<forall>t\<in>set ths. c_interruption t < 2 ^ 30" by simp
  from Cons.IH [OF run this small] mx' show ?case by simp
qed

lemma fold_max_div:
  "fold max (map (\<lambda>x. f x div s) xs) (m div s) = fold max (map f xs) m div (s :: nat)"
proof (induction xs arbitrary: m)
  case Nil
  then show ?case by simp
next
  case (Cons x xs)
  have "max (f x div s) (m div s) = max (f x) m div s"
    by (simp add: max_def div_le_mono) (metis div_le_mono nat_le_linear order_antisym)
  with Cons.IH [of "max (f x) m"] show ?case by simp
qed

lemma calc_max_interruptions_unfold:
  assumes "unat (n_threads g) \<le> length threads"
    and "scan_threads (take (unat (n_threads g)) threads) 0 = (ths', mx)"
    and "runtime_secs g \<noteq> 0"
    and "per_sec = (if sint (mx div runtime_secs g) < 1000 then 1000 else mx div runtime_secs g)"
    and "in_int_range (sint per_sec * 2)"
    and "in_int_range (sint per_sec * 2 * sint secs)"
  shows "calc_max_interruptions g threads secs =
      Inr (g\<lparr>max_interruptions := word_of_int (sint per_sec * 2 * sint secs)\<rparr>,
           ths' @ drop (unat (n_threads g)) threads)"
  using assms by (simp add: calc_max_interruptions_def Let_def)

text \<open>
  C7, within the range of \<^verbatim>\<open>int\<close>. If every thread's count is below \<open>2 ^ 30\<close>, the
  duration of the full run is not negative, and twice the larger of the observed rate
  and 1000, times the duration, is below \<open>2 ^ 31\<close>, then \<^verbatim>\<open>calc_max_interruptions\<close>
  returns and sets the capacity to exactly that product, where the observed rate is the
  largest over the threads of the count divided by the seconds of the calibration run;
  with an observed rate below 1000 the capacity is 2000 times the duration.
\<close>

theorem calc_max_interruptions_capacity:
  assumes len: "unat (n_threads g) \<le> length threads"
    and counts: "\<forall>t\<in>set threads. c_interruption t < 2 ^ 30"
    and secs_g: "runtime_secs g \<noteq> 0"
    and dur: "0 \<le> sint secs"
    and fits: "2 * int (max (observed_rate g threads) 1000) * sint secs < 2 ^ 31"
  shows "\<exists>g' ths'. calc_max_interruptions g threads secs = Inr (g', ths') \<and>
           uint (max_interruptions g') = 2 * int (max (observed_rate g threads) 1000) * sint secs \<and>
           (observed_rate g threads < 1000 \<longrightarrow> uint (max_interruptions g') = 2 * 1000 * sint secs)"
proof -
  define ths where "ths = take (unat (n_threads g)) threads"
  obtain ths' mx where sc: "scan_threads ths 0 = (ths', mx)"
    by (cases "scan_threads ths 0")
  have "\<forall>t\<in>set ths. c_interruption t < 2 ^ 30"
    using counts by (auto simp: ths_def dest: in_set_takeD)
  from scan_threads_max [OF sc this] have mx: "unat mx = fold max (map c_interruption ths) 0"
    and mx_small: "unat mx < 2 ^ 30" by simp_all
  define q where "q = mx div runtime_secs g"
  have q: "unat q = observed_rate g threads"
    using fold_max_div [of c_interruption "unat (runtime_secs g)" ths 0]
    by (simp add: q_def unat_div mx observed_rate_def ths_def)
  have "unat q \<le> unat mx" by (simp add: q_def unat_div)
  with mx_small have q_small: "unat q < 2 ^ 30" by simp
  define k where "k = unat q"
  have sq: "sint q = int k" unfolding k_def using q_small by (intro sint_eq_unat_32) simp
  have k_small: "k < 2 ^ 30" using q_small by (simp add: k_def)
  have k_rate: "k = observed_rate g threads" using q by (simp add: k_def)
  define per_sec where "per_sec = (if sint q < 1000 then 1000 else q)"
  have sp: "sint per_sec = int (max k 1000)"
  proof (cases "k < 1000")
    case True
    then show ?thesis by (simp add: per_sec_def sq max_def)
  next
    case False
    then show ?thesis by (simp add: per_sec_def sq max_def)
  qed
  have "max k 1000 < 2 ^ 30" using k_small by simp
  then have "int (max k 1000) < 2 ^ 30" by (metis of_nat_less_iff of_nat_numeral of_nat_power)
  then have r1: "in_int_range (sint per_sec * 2)"
    by (simp add: in_int_range_def sp)
  define P where "P = 2 * int (max (observed_rate g threads) 1000) * sint secs"
  have P: "sint per_sec * 2 * sint secs = P" by (simp add: sp k_rate P_def)
  have P0: "0 \<le> P" using dur by (simp add: P_def)
  have P1: "P < 2 ^ 31" using fits by (simp add: P_def)
  have r2: "in_int_range (sint per_sec * 2 * sint secs)"
    unfolding P using P0 P1 by (simp add: in_int_range_def)
  have run: "calc_max_interruptions g threads secs =
      Inr (g\<lparr>max_interruptions := word_of_int P\<rparr>, ths' @ drop (unat (n_threads g)) threads)"
    using calc_max_interruptions_unfold [OF len sc [unfolded ths_def] secs_g
        per_sec_def [unfolded q_def] r1 r2]
    by (simp only: P)
  have "uint (word_of_int P :: 32 word) = P mod 2 ^ 32" by (simp add: uint_word_of_int)
  also have "\<dots> = P" using P0 P1 by (intro mod_pos_pos_trivial) simp_all
  finally have cap: "uint (max_interruptions (g\<lparr>max_interruptions := word_of_int P\<rparr>)) = P"
    by simp
  have "observed_rate g threads < 1000 \<longrightarrow> P = 2 * 1000 * sint secs"
    by (simp add: P_def max_def)
  with run cap show ?thesis unfolding P_def [symmetric] by metis
qed

lemma observed_rate_500: "observed_rate g_four [thread_500] = 500"
  by (simp add: observed_rate_def g_four_def thread_500_def zero_thread_def)

theorem calc_max_interruptions_capacity_witness:
  "unat (n_threads g_four) \<le> length [thread_500] \<and>
   c_interruption thread_500 < 2 ^ 30 \<and>
   runtime_secs g_four \<noteq> 0 \<and> 0 \<le> sint (70 :: 32 word) \<and>
   observed_rate g_four [thread_500] = 500 \<and>
   (\<exists>g' ths'. calc_max_interruptions g_four [thread_500] 70 = Inr (g', ths') \<and>
      uint (max_interruptions g') = 140000)"
proof -
  have h: "unat (n_threads g_four) \<le> length [thread_500]"
    "\<forall>t\<in>set [thread_500]. c_interruption t < 2 ^ 30"
    "runtime_secs g_four \<noteq> 0" "0 \<le> sint (70 :: 32 word)"
    "2 * int (max (observed_rate g_four [thread_500]) 1000) * sint (70 :: 32 word) < 2 ^ 31"
    by (simp_all add: observed_rate_500) (simp_all add: g_four_def thread_500_def zero_thread_def)
  from calc_max_interruptions_capacity [OF h] obtain g' ths' where
    "calc_max_interruptions g_four [thread_500] 70 = Inr (g', ths')"
    "uint (max_interruptions g') = 2 * int (max (observed_rate g_four [thread_500]) 1000) * sint (70 :: 32 word)"
    by blast
  then have "calc_max_interruptions g_four [thread_500] 70 = Inr (g', ths') \<and>
      uint (max_interruptions g') = 140000"
    by (simp add: observed_rate_500)
  moreover from h(2) have "c_interruption thread_500 < 2 ^ 30" by simp
  ultimately show ?thesis using h(1,3,4) observed_rate_500 by blast
qed

text \<open>
  C7, as claimed for every run. With an observed rate of 500 per second and a full run of
  3000000 seconds the claimed capacity is 6000000000, which no \<^verbatim>\<open>unsigned\<close> holds; the
  product \<^verbatim>\<open>per_sec * 2 * runtime\<close> overflows \<^verbatim>\<open>int\<close>.
\<close>

theorem calc_max_interruptions_overflow_counterexample:
  "observed_rate g_four [thread_500] = 500 \<and>
   2 * int (max (observed_rate g_four [thread_500]) 1000) * sint (3000000 :: 32 word) = 6000000000 \<and>
   calc_max_interruptions g_four [thread_500] 3000000 = Inl SignedOverflow"
  by (simp add: observed_rate_500)
    (simp add: calc_max_interruptions_def in_int_range_def g_four_def thread_500_def
      zero_thread_def)

end
